theory Spec2Isabelle
  imports Complex_Main "HOL-Library.Log_Nat" "HOL-Library.Word"
begin

section \<open>Floating-point arithmetic of the template parameter \<open>T\<close>\<close>

text \<open>
  \<open>floats.cpp\<close> instantiates its two templates at \<open>float\<close>, \<open>double\<close> and
  \<open>long double\<close>. The model below is IEEE 754 binary arithmetic in the default rounding
  mode (round to nearest, ties to even), every operation rounded once to the format of its
  operands (no intermediate result is kept in a wider format). A format is given by its
  precision (significand bits, hidden bit included) and its largest exponent.
\<close>

record format =
  prec :: nat
  emax :: int

definition binary32 :: format where
  "binary32 = \<lparr>prec = 24, emax = 127\<rparr>"

definition binary64 :: format where
  "binary64 = \<lparr>prec = 53, emax = 1023\<rparr>"

text \<open>The source notes that \<open>long double\<close> is the 80 bit x87 format under the author's g++.\<close>

definition x87_extended :: format where
  "x87_extended = \<lparr>prec = 64, emax = 16383\<rparr>"

text \<open>
  The three formats have at least two significand bits and an exponent range that is wide
  compared with the precision; the general results below need no more than that.
\<close>

definition valid_format :: "format \<Rightarrow> bool" where
  "valid_format f = (2 \<le> prec f \<and> int (prec f) + 2 \<le> emax f)"

definition emin :: "format \<Rightarrow> int" where
  "emin f = 1 - emax f"

text \<open>Exponent of the least significant bit of a subnormal number.\<close>

definition qmin :: "format \<Rightarrow> int" where
  "qmin f = emin f - (int (prec f) - 1)"

text \<open>
  A value of type \<open>T\<close>: a sign (\<open>True\<close> is negative) with a magnitude, an infinity, or a
  NaN. Zero carries a sign, as in IEEE 754.
\<close>

datatype fp = Finite bool rat | Infinity bool | NaN

definition pow2 :: "int \<Rightarrow> rat" where
  "pow2 k = 2 powi k"

text \<open>\<open>ilog2 r\<close> is the integer \<open>k\<close> with \<open>2^k \<le> r < 2^(k+1)\<close>, for positive \<open>r\<close>.\<close>

definition ilog2 :: "rat \<Rightarrow> int" where
  "ilog2 r = (if 1 \<le> r then bitlen \<lfloor>r\<rfloor> - 1 else - bitlen (\<lceil>1 / r\<rceil> - 1))"

text \<open>Round to the nearest integer, ties to the even one.\<close>

definition rhe :: "rat \<Rightarrow> int" where
  "rhe r = (let n = \<lfloor>r\<rfloor>; d = r - of_int n
            in if d < 1 / 2 then n
               else if 1 / 2 < d then n + 1
               else if even n then n else n + 1)"

text \<open>Exponent of the unit in the last place that the format gives a magnitude \<open>r > 0\<close>.\<close>

definition quantum :: "format \<Rightarrow> rat \<Rightarrow> int" where
  "quantum f r = max (ilog2 r - (int (prec f) - 1)) (qmin f)"

definition round_mag :: "format \<Rightarrow> rat \<Rightarrow> rat" where
  "round_mag f r = of_int (rhe (r / pow2 (quantum f r))) * pow2 (quantum f r)"

text \<open>A rounded magnitude beyond the largest finite number of the format.\<close>

definition overflows :: "format \<Rightarrow> rat \<Rightarrow> bool" where
  "overflows f m = (pow2 (emax f + 1) \<le> m)"

text \<open>
  Rounding of an exact result with sign \<open>s\<close> and magnitude \<open>r\<close>: a result that rounds
  beyond the largest finite number overflows to infinity, a result that rounds to zero keeps
  its sign.
\<close>

definition round_fp :: "format \<Rightarrow> bool \<Rightarrow> rat \<Rightarrow> fp" where
  "round_fp f s r =
     (if r = 0 then Finite s 0
      else let m = round_mag f r
           in if overflows f m then Infinity s else Finite s m)"

definition signed :: "bool \<Rightarrow> rat \<Rightarrow> rat" where
  "signed s m = (if s then - m else m)"

text \<open>Operator \<open>+\<close> of \<open>T\<close>.\<close>

fun fadd :: "format \<Rightarrow> fp \<Rightarrow> fp \<Rightarrow> fp" where
  "fadd f NaN y = NaN"
| "fadd f x NaN = NaN"
| "fadd f (Infinity s) (Infinity t) = (if s = t then Infinity s else NaN)"
| "fadd f (Infinity s) (Finite t m) = Infinity s"
| "fadd f (Finite s m) (Infinity t) = Infinity t"
| "fadd f (Finite s m) (Finite t n) =
     (let r = signed s m + signed t n
      in if r = 0 then Finite (s \<and> t) 0 else round_fp f (r < 0) \<bar>r\<bar>)"

text \<open>Operator \<open>*\<close> of \<open>T\<close>.\<close>

fun fmul :: "format \<Rightarrow> fp \<Rightarrow> fp \<Rightarrow> fp" where
  "fmul f NaN y = NaN"
| "fmul f x NaN = NaN"
| "fmul f (Infinity s) (Infinity t) = Infinity (s \<noteq> t)"
| "fmul f (Infinity s) (Finite t m) = (if m = 0 then NaN else Infinity (s \<noteq> t))"
| "fmul f (Finite s m) (Infinity t) = (if m = 0 then NaN else Infinity (s \<noteq> t))"
| "fmul f (Finite s m) (Finite t n) = round_fp f (s \<noteq> t) (m * n)"

text \<open>Operator \<open>/\<close> of \<open>T\<close>.\<close>

fun fdiv :: "format \<Rightarrow> fp \<Rightarrow> fp \<Rightarrow> fp" where
  "fdiv f NaN y = NaN"
| "fdiv f x NaN = NaN"
| "fdiv f (Infinity s) (Infinity t) = NaN"
| "fdiv f (Infinity s) (Finite t m) = Infinity (s \<noteq> t)"
| "fdiv f (Finite s m) (Infinity t) = Finite (s \<noteq> t) 0"
| "fdiv f (Finite s m) (Finite t n) =
     (if n = 0 then (if m = 0 then NaN else Infinity (s \<noteq> t))
      else round_fp f (s \<noteq> t) (m / n))"

text \<open>Operator \<open>!=\<close> of \<open>T\<close>: a NaN differs from everything, the two zeros are equal.\<close>

fun fneq :: "fp \<Rightarrow> fp \<Rightarrow> bool" where
  "fneq NaN y = True"
| "fneq x NaN = True"
| "fneq (Infinity s) (Infinity t) = (s \<noteq> t)"
| "fneq (Infinity s) (Finite t m) = True"
| "fneq (Finite s m) (Infinity t) = True"
| "fneq (Finite s m) (Finite t n) = (signed s m \<noteq> signed t n)"

text \<open>Operator \<open><\<close> of \<open>T\<close>: false as soon as one side is a NaN.\<close>

fun fless :: "fp \<Rightarrow> fp \<Rightarrow> bool" where
  "fless NaN y = False"
| "fless x NaN = False"
| "fless (Infinity s) (Infinity t) = (s \<and> \<not> t)"
| "fless (Infinity s) (Finite t m) = s"
| "fless (Finite s m) (Infinity t) = (\<not> t)"
| "fless (Finite s m) (Finite t n) = (signed s m < signed t n)"

text \<open>Conversion of a value to format \<open>f\<close> (exact when the value is a number of \<open>f\<close>).\<close>

fun fcvt :: "format \<Rightarrow> fp \<Rightarrow> fp" where
  "fcvt f (Finite s m) = round_fp f s m"
| "fcvt f x = x"

text \<open>A decimal literal of the source text, read in format \<open>f\<close>.\<close>

definition literal :: "format \<Rightarrow> rat \<Rightarrow> fp" where
  "literal f r = round_fp f (r < 0) \<bar>r\<bar>"

text \<open>The values of format \<open>f\<close>: what a variable of type \<open>T\<close> can hold.\<close>

fun is_float :: "format \<Rightarrow> fp \<Rightarrow> bool" where
  "is_float f (Finite s m) = (m = 0 \<or> 0 < m \<and> round_fp f s m = Finite s m)"
| "is_float f x = True"

fun is_finite :: "fp \<Rightarrow> bool" where
  "is_finite (Finite s m) = True"
| "is_finite x = False"

section \<open>The program\<close>

subsection \<open>\<open>accuracy_bound\<close>\<close>

text \<open>
  The \<open>while\<close> loop of \<open>accuracy_bound\<close>, as a function of the loop variable
  \<open>epsilon\<close>: the result is the value of \<open>epsilon\<close> when the loop exits, and \<open>None\<close>
  when it never does.
\<close>

partial_function (option) accuracy_loop :: "format \<Rightarrow> fp \<Rightarrow> fp \<Rightarrow> fp \<Rightarrow> fp option" where
  "accuracy_loop f value divisor epsilon =
     (if fneq (fadd f value epsilon) value
      then accuracy_loop f value divisor (fdiv f epsilon divisor)
      else Some epsilon)"

declare accuracy_loop.simps [code]

text \<open>The value of \<open>epsilon\<close> after \<open>k\<close> executions of the loop body.\<close>

primrec guess_after :: "format \<Rightarrow> fp \<Rightarrow> fp \<Rightarrow> nat \<Rightarrow> fp" where
  "guess_after f divisor initial_guess 0 = initial_guess"
| "guess_after f divisor initial_guess (Suc k) = fdiv f (guess_after f divisor initial_guess k) divisor"

definition accuracy_bound :: "format \<Rightarrow> fp \<Rightarrow> fp \<Rightarrow> fp \<Rightarrow> fp option" where
  "accuracy_bound f value divisor initial_guess =
     (case accuracy_loop f value divisor initial_guess of
        None \<Rightarrow> None
      | Some epsilon \<Rightarrow> Some (fmul f epsilon divisor))"

subsection \<open>\<open>accuracy_vector\<close>\<close>

text \<open>
  The \<open>for\<close> loop, with the counter \<open>i\<close> and the bound \<open>size\<close> of type
  \<open>unsigned\<close> (32 bits). The loop stores each result in \<open>output[i]\<close> and reads the next
  guess back from there.
\<close>

function av_loop ::
  "format \<Rightarrow> fp \<Rightarrow> fp list \<Rightarrow> 32 word \<Rightarrow> 32 word \<Rightarrow> fp \<Rightarrow> fp list \<Rightarrow> fp list option" where
  "av_loop f value divisors sz i guess output =
     (if i < sz
      then (case accuracy_bound f value (divisors ! unat i) guess of
              None \<Rightarrow> None
            | Some r \<Rightarrow>
                av_loop f value divisors sz (i + 1)
                  (output[unat i := r] ! unat i) (output[unat i := r]))
      else Some output)"
  by pat_completeness auto
termination
proof (relation "measure (\<lambda>(f, v, ds, sz, i, g, out). unat sz - unat i)")
  show "wf (measure (\<lambda>(f, v, ds, sz, i, g, out). unat sz - unat i))"
    by simp
next
  fix f :: format and v :: fp and ds :: "fp list" and sz i :: "32 word"
    and g :: fp and out :: "fp list" and r :: fp
  assume lt: "i < sz"
  then have lt': "unat i < unat sz"
    by (simp add: word_less_nat_alt)
  have "unat sz < 2 ^ 32"
    using unsigned_less [of sz] by simp
  with lt' have "unat i + unat (1 :: 32 word) < 2 ^ LENGTH(32)"
    by simp
  then have "unat (i + 1) = unat i + unat (1 :: 32 word)"
    by (rule iffD1 [OF unat_add_lem])
  then have "unat (i + 1) = unat i + 1"
    by simp
  with lt' show "((f, v, ds, sz, i + 1, out[unat i := r] ! unat i, out[unat i := r]),
      (f, v, ds, sz, i, g, out))
    \<in> measure (\<lambda>(f, v, ds, sz, i, g, out). unat sz - unat i)"
    by simp
qed

text \<open>
  \<open>const unsigned size = divisors.size()\<close> converts the \<open>size_t\<close> length to
  \<open>unsigned\<close>, which keeps the low 32 bits where \<open>size_t\<close> is wider (as on the usual
  64 bit platforms); \<open>std::vector<T> output(size)\<close> holds \<open>size\<close> zeros.
\<close>

definition accuracy_vector :: "format \<Rightarrow> fp \<Rightarrow> fp list \<Rightarrow> fp \<Rightarrow> fp list option" where
  "accuracy_vector f value divisors initial_guess =
     (let sz = (word_of_nat (length divisors) :: 32 word);
          output = replicate (unat sz) (Finite False 0)
      in av_loop f value divisors sz 0 initial_guess output)"

text \<open>
  \<open>accuracy_vector\<close> with the memory made explicit. The store holds the vectors of the
  program, a vector's address is its index in the store. \<open>divisors\<close> is a reference to a
  vector of the caller, at address \<open>a\<close>; \<open>output\<close> is a new vector, at the first free
  address \<open>b\<close>. The loop reads \<open>divisors[i]\<close> from the store and writes \<open>output[i]\<close>
  to it; \<open>value\<close>, \<open>guess\<close>, \<open>size\<close> and \<open>i\<close> are local variables, and
  \<open>accuracy_bound\<close> receives its three arguments by value. The result is the address of
  \<open>output\<close> with the store after the call.
\<close>

type_synonym store = "fp list list"

function av_loop_st ::
  "format \<Rightarrow> fp \<Rightarrow> nat \<Rightarrow> nat \<Rightarrow> 32 word \<Rightarrow> 32 word \<Rightarrow> fp \<Rightarrow> store \<Rightarrow> store option" where
  "av_loop_st f value a b sz i guess h =
     (if i < sz
      then (case accuracy_bound f value (h ! a ! unat i) guess of
              None \<Rightarrow> None
            | Some r \<Rightarrow>
                av_loop_st f value a b sz (i + 1)
                  (h[b := (h ! b)[unat i := r]] ! b ! unat i)
                  (h[b := (h ! b)[unat i := r]]))
      else Some h)"
  by pat_completeness auto
termination
proof (relation "measure (\<lambda>(f, v, a, b, sz, i, g, h). unat sz - unat i)")
  show "wf (measure (\<lambda>(f, v, a, b, sz, i, g, h). unat sz - unat i))"
    by simp
next
  fix f :: format and v :: fp and a b :: nat and sz i :: "32 word"
    and g :: fp and h :: store and r :: fp
  assume lt: "i < sz"
  then have lt': "unat i < unat sz"
    by (simp add: word_less_nat_alt)
  have "unat sz < 2 ^ 32"
    using unsigned_less [of sz] by simp
  with lt' have "unat i + unat (1 :: 32 word) < 2 ^ LENGTH(32)"
    by simp
  then have "unat (i + 1) = unat i + unat (1 :: 32 word)"
    by (rule iffD1 [OF unat_add_lem])
  then have "unat (i + 1) = unat i + 1"
    by simp
  with lt' show "((f, v, a, b, sz, i + 1, h[b := (h ! b)[unat i := r]] ! b ! unat i,
      h[b := (h ! b)[unat i := r]]), (f, v, a, b, sz, i, g, h))
    \<in> measure (\<lambda>(f, v, a, b, sz, i, g, h). unat sz - unat i)"
    by simp
qed


text \<open>
  The refinement sequence in the words of the specification: for each divisor in order,
  call \<open>accuracy_bound\<close> with the current guess, append the result and carry it forward.
\<close>

fun refine_spec :: "format \<Rightarrow> fp \<Rightarrow> fp list \<Rightarrow> fp \<Rightarrow> fp list option" where
  "refine_spec f value [] guess = Some []"
| "refine_spec f value (d # ds) guess =
     (case accuracy_bound f value d guess of
        None \<Rightarrow> None
      | Some r \<Rightarrow>
          (case refine_spec f value ds r of
             None \<Rightarrow> None
           | Some rs \<Rightarrow> Some (r # rs)))"

subsection \<open>\<open>main\<close>\<close>

text \<open>
  The divisor lists. Each literal is a \<open>double\<close> constant that initialises a \<open>float\<close>;
  the \<open>double\<close> and \<open>long double\<close> lists are built by converting the \<open>float\<close> elements.
\<close>

definition single_divisors :: "fp list" where
  "single_divisors =
     map (\<lambda>r. fcvt binary32 (literal binary64 r))
       [2, 11 / 10, 101 / 100, 1001 / 1000, 10001 / 10000, 100001 / 100000]"

definition double_divisors :: "fp list" where
  "double_divisors = map (fcvt binary64) single_divisors"

definition extended_divisors :: "fp list" where
  "extended_divisors = map (fcvt x87_extended) single_divisors"

text \<open>\<open>pow(2, k)\<close> of \<open><cmath>\<close>, a \<open>double\<close>.\<close>

definition pow_2 :: "int \<Rightarrow> fp" where
  "pow_2 k = round_fp binary64 False (pow2 k)"

text \<open>\<open>v[v.size() - 1]\<close>; there is no such element in an empty vector.\<close>

definition last_element :: "fp list \<Rightarrow> fp option" where
  "last_element v = (if v = [] then None else Some (v ! (length v - 1)))"

text \<open>What is sent to \<open>std::cout\<close>, before formatting.\<close>

datatype item = Str string | Num fp | Endl

text \<open>
  Modelled from the spec: \<open>utils::vector_to_file\<close> (\<open>utils.h\<close> is not among the sources)
  appends the sequence it is given to the sink, after the sequences written before.
\<close>

definition vector_to_file :: "fp list list \<Rightarrow> fp list \<Rightarrow> fp list list" where
  "vector_to_file sink v = sink @ [v]"

record outcome =
  console :: "item list"
  written :: "fp list list"

definition main :: "outcome option" where
  "main =
     (case accuracy_vector binary32 (fcvt binary32 (literal binary64 1)) single_divisors
             (fcvt binary32 (literal binary64 1)) of
        None \<Rightarrow> None
      | Some single_vector \<Rightarrow>
     (case accuracy_vector binary64 (literal binary64 1) double_divisors
             (literal binary64 1) of
        None \<Rightarrow> None
      | Some double_vector \<Rightarrow>
     (case accuracy_vector x87_extended (fcvt x87_extended (literal binary64 1))
             extended_divisors (fcvt x87_extended (literal binary64 1)) of
        None \<Rightarrow> None
      | Some extended_vector \<Rightarrow>
     (case (last_element single_vector, last_element double_vector,
            last_element extended_vector) of
        (Some s, Some d, Some e) \<Rightarrow>
          Some \<lparr>console =
                  [Str ''Single precision accuracy upper bound: '', Num s,
                   Str '', compared with a theoretical value of '', Num (pow_2 (- 24)),
                   Str ''.'', Endl,
                   Str ''Double precision accuracy upper bound: '', Num d,
                   Str '', compared with a theoretical value of '', Num (pow_2 (- 53)),
                   Str ''.'', Endl,
                   Str ''Extended precision accuracy upper bound: '', Num e,
                   Str '', compared with a theoretical value of '', Num (pow_2 (- 64)),
                   Str ''.'', Endl],
                written =
                  vector_to_file
                    (vector_to_file (vector_to_file [] single_vector) double_vector)
                    extended_vector\<rparr>
      | _ \<Rightarrow> None))))"

section \<open>Facts about the arithmetic\<close>

subsection \<open>Powers of two\<close>

lemma pow2_pos [simp]: "0 < pow2 k"
  by (simp add: pow2_def)

lemma pow2_nonneg [simp]: "0 \<le> pow2 k"
  by (simp add: pow2_def)

lemma pow2_neq0 [simp]: "pow2 k \<noteq> 0"
  by (simp add: pow2_def)

lemma pow2_add: "pow2 (a + b) = pow2 a * pow2 b"
  by (simp add: pow2_def power_int_add)

lemma pow2_diff: "pow2 (a - b) = pow2 a / pow2 b"
  by (simp add: pow2_def power_int_diff)

lemma pow2_zero [simp]: "pow2 0 = 1"
  by (simp add: pow2_def)

lemma pow2_one [simp]: "pow2 1 = 2"
  by (simp add: pow2_def)

lemma pow2_le: "a \<le> b \<Longrightarrow> pow2 a \<le> pow2 b"
  by (simp add: pow2_def power_int_increasing)

lemma pow2_less: "a < b \<Longrightarrow> pow2 a < pow2 b"
  by (simp add: pow2_def power_int_strict_increasing)

lemma pow2_less_iff [simp]: "pow2 a < pow2 b \<longleftrightarrow> a < b"
  using pow2_less [of a b] pow2_le [of b a] by (auto simp: not_less [symmetric])

lemma pow2_le_iff [simp]: "pow2 a \<le> pow2 b \<longleftrightarrow> a \<le> b"
  using pow2_le [of a b] pow2_less [of b a] by (auto simp: not_le [symmetric])

lemma pow2_of_nat: "pow2 (int n) = 2 ^ n"
  by (simp add: pow2_def)

lemma pow2_of_int: "0 \<le> k \<Longrightarrow> pow2 k = of_int (2 ^ nat k)"
  by (simp add: pow2_def power_int_def)

lemma pow2_minus: "pow2 (- k) = 1 / pow2 k"
  by (simp add: pow2_def power_int_minus field_simps)

lemma pow2_Suc: "pow2 (k + 1) = 2 * pow2 k"
  by (simp add: pow2_add)

lemma pow2_pred: "pow2 (k - 1) = pow2 k / 2"
  by (simp add: pow2_diff)

subsection \<open>The binary logarithm\<close>

lemma ilog2_bounds:
  assumes "0 < r"
  shows "pow2 (ilog2 r) \<le> r" and "r < pow2 (ilog2 r + 1)"
proof -
  have "pow2 (ilog2 r) \<le> r \<and> r < pow2 (ilog2 r + 1)"
  proof (cases "1 \<le> r")
    case True
    define n where "n = \<lfloor>r\<rfloor>"
    have n: "1 \<le> n"
      using True by (simp add: n_def le_floor_iff)
    then have b: "2 ^ nat (bitlen n - 1) \<le> n" "n < 2 ^ nat (bitlen n)"
      using bitlen_bounds [of n] by auto
    have b1: "1 \<le> bitlen n"
      using n by (simp add: bitlen_alt_def)
    have k: "ilog2 r = bitlen n - 1"
      using True by (simp add: ilog2_def n_def)
    have "pow2 (bitlen n - 1) = of_int (2 ^ nat (bitlen n - 1))"
      using b1 by (intro pow2_of_int) simp
    also have "\<dots> \<le> of_int n"
      using b(1) by (simp only: of_int_le_iff)
    also have "\<dots> \<le> r"
      by (simp add: n_def)
    finally have lo: "pow2 (bitlen n - 1) \<le> r" .
    have "r < of_int (n + 1)"
      unfolding n_def using floor_correct [of r] by simp
    also have "\<dots> \<le> of_int (2 ^ nat (bitlen n))"
      using b(2) by (simp only: of_int_le_iff)
    also have "\<dots> = pow2 (bitlen n)"
      using b1 by (subst pow2_of_int) simp_all
    finally have "r < pow2 (bitlen n)" .
    with lo k show ?thesis
      by simp
  next
    case False
    define c where "c = \<lceil>1 / r\<rceil>"
    have x: "1 < 1 / r"
      using False assms by simp
    then have c: "2 \<le> c"
      unfolding c_def by (simp add: le_ceiling_iff)
    then have b: "2 ^ nat (bitlen (c - 1) - 1) \<le> c - 1" "c - 1 < 2 ^ nat (bitlen (c - 1))"
      using bitlen_bounds [of "c - 1"] by auto
    have b1: "1 \<le> bitlen (c - 1)"
      using c by (simp add: bitlen_alt_def)
    have k: "ilog2 r = - bitlen (c - 1)"
      using False by (simp add: ilog2_def c_def)
    have "1 / r \<le> of_int c"
      by (simp add: c_def)
    also have "\<dots> \<le> of_int (2 ^ nat (bitlen (c - 1)))"
      using b(2) by (simp only: of_int_le_iff)
    also have "\<dots> = pow2 (bitlen (c - 1))"
      using b1 by (subst pow2_of_int) simp_all
    finally have "1 / r \<le> pow2 (bitlen (c - 1))" .
    then have lo: "pow2 (- bitlen (c - 1)) \<le> r"
      using assms by (simp add: pow2_minus field_simps)
    have "pow2 (bitlen (c - 1) - 1) = of_int (2 ^ nat (bitlen (c - 1) - 1))"
      using b1 by (intro pow2_of_int) simp
    also have "\<dots> \<le> of_int (c - 1)"
      using b(1) by (simp only: of_int_le_iff)
    also have "\<dots> < 1 / r"
      unfolding c_def using ceiling_correct [of "1 / r"] by simp
    finally have "pow2 (bitlen (c - 1) - 1) < 1 / r" .
    then have "r < 1 / pow2 (bitlen (c - 1) - 1)"
      using assms by (simp add: field_simps)
    then have "r < pow2 (- bitlen (c - 1) + 1)"
      by (simp add: pow2_minus [symmetric])
    with lo k show ?thesis
      by simp
  qed
  then show "pow2 (ilog2 r) \<le> r" and "r < pow2 (ilog2 r + 1)"
    by simp_all
qed

lemma ilog2_unique:
  assumes "0 < r" "pow2 k \<le> r" "r < pow2 (k + 1)"
  shows "ilog2 r = k"
proof -
  have "pow2 (ilog2 r) < pow2 (k + 1)"
    using ilog2_bounds(1) [OF assms(1)] assms(3) by (rule le_less_trans)
  moreover have "pow2 k < pow2 (ilog2 r + 1)"
    using assms(2) ilog2_bounds(2) [OF assms(1)] by (rule le_less_trans)
  ultimately show ?thesis
    by simp
qed

lemma ilog2_mono:
  assumes "0 < a" "a \<le> b"
  shows "ilog2 a \<le> ilog2 b"
proof -
  have "pow2 (ilog2 a) \<le> a"
    using assms(1) by (rule ilog2_bounds)
  also note assms(2)
  also have "b < pow2 (ilog2 b + 1)"
    using assms by (intro ilog2_bounds) simp
  finally show ?thesis
    by simp
qed

lemma ilog2_pow2 [simp]: "ilog2 (pow2 k) = k"
  by (rule ilog2_unique) simp_all

subsection \<open>Rounding to the nearest integer\<close>

lemma rhe_cases: "rhe x = \<lfloor>x\<rfloor> \<or> rhe x = \<lfloor>x\<rfloor> + 1"
  by (simp add: rhe_def Let_def)

lemma rhe_error: "\<bar>of_int (rhe x) - x\<bar> \<le> 1 / 2"
proof -
  have "of_int \<lfloor>x\<rfloor> \<le> x" "x < of_int \<lfloor>x\<rfloor> + 1"
    using floor_correct [of x] by simp_all
  then show ?thesis
    by (auto simp: rhe_def Let_def abs_le_iff)
qed

lemma rhe_near: "\<bar>of_int n - x\<bar> < 1 / 2 \<Longrightarrow> rhe x = n"
proof -
  assume a: "\<bar>of_int n - x\<bar> < 1 / 2"
  have "\<bar>(of_int (rhe x) :: rat) - of_int n\<bar> < 1"
    using a rhe_error [of x] by linarith
  then have "\<bar>(of_int (rhe x - n) :: rat)\<bar> < 1"
    by simp
  then have "\<bar>rhe x - n\<bar> < 1"
    by (metis of_int_abs of_int_less_1_iff)
  then show ?thesis
    by simp
qed

lemma rhe_of_int [simp]: "rhe (of_int n) = n"
  by (rule rhe_near) simp

lemma rhe_zero [simp]: "rhe 0 = 0"
  using rhe_of_int [of 0] by simp

lemma rhe_nearest: "\<bar>of_int (rhe x) - x\<bar> \<le> \<bar>of_int n - x\<bar>"
proof (cases "\<bar>of_int n - x\<bar> < 1 / 2")
  case True
  then show ?thesis
    by (simp add: rhe_near)
next
  case False
  with rhe_error [of x] show ?thesis
    by linarith
qed

lemma rhe_ge: "of_int k \<le> x \<Longrightarrow> k \<le> rhe x"
proof -
  assume "of_int k \<le> x"
  then have "k \<le> \<lfloor>x\<rfloor>"
    by (simp add: le_floor_iff)
  with rhe_cases [of x] show ?thesis
    by auto
qed

lemma rhe_le: "x \<le> of_int k \<Longrightarrow> rhe x \<le> k"
proof (cases "x = of_int \<lfloor>x\<rfloor>")
  case True
  assume "x \<le> of_int k"
  moreover from True have "rhe x = \<lfloor>x\<rfloor>"
    by (metis rhe_of_int)
  ultimately show ?thesis
    by (simp add: floor_le_iff)
next
  case False
  assume "x \<le> of_int k"
  moreover have "of_int \<lfloor>x\<rfloor> < x"
    using False of_int_floor_le [of x] by (auto simp: less_le)
  ultimately have "(of_int \<lfloor>x\<rfloor> :: rat) < of_int k"
    by simp
  then have "\<lfloor>x\<rfloor> < k"
    by (simp only: of_int_less_iff)
  with rhe_cases [of x] show ?thesis
    by auto
qed

lemma rhe_nonneg: "0 \<le> x \<Longrightarrow> 0 \<le> rhe x"
  using rhe_ge [of 0 x] by simp

subsection \<open>Rounding a magnitude\<close>

lemma qmin_le_quantum: "qmin f \<le> quantum f r"
  by (simp add: quantum_def)

lemma quantum_mono: "0 < a \<Longrightarrow> a \<le> b \<Longrightarrow> quantum f a \<le> quantum f b"
  using ilog2_mono [of a b] by (simp add: quantum_def)

lemma round_mag_nonneg: "0 \<le> r \<Longrightarrow> 0 \<le> round_mag f r"
  by (simp add: round_mag_def rhe_nonneg)

lemma round_mag_nearest:
  "\<bar>round_mag f r - r\<bar> \<le> \<bar>of_int n * pow2 (quantum f r) - r\<bar>"
proof -
  define q where "q = pow2 (quantum f r)"
  have q: "0 < q"
    by (simp add: q_def)
  have sc: "\<bar>of_int k - r / q\<bar> * q = \<bar>of_int k * q - r\<bar>" for k
  proof -
    have "\<bar>of_int k - r / q\<bar> * q = \<bar>(of_int k - r / q) * q\<bar>"
      using q by (simp add: abs_mult)
    also have "(of_int k - r / q) * q = of_int k * q - r"
      using q by (simp add: field_simps)
    finally show ?thesis .
  qed
  have "\<bar>of_int (rhe (r / q)) - r / q\<bar> \<le> \<bar>of_int n - r / q\<bar>"
    by (rule rhe_nearest)
  then have "\<bar>of_int (rhe (r / q)) - r / q\<bar> * q \<le> \<bar>of_int n - r / q\<bar> * q"
    using q by (intro mult_right_mono) simp_all
  then have "\<bar>of_int (rhe (r / q)) * q - r\<bar> \<le> \<bar>of_int n * q - r\<bar>"
    by (simp only: sc)
  then show ?thesis
    by (simp only: round_mag_def q_def)
qed

text \<open>The scaled magnitude lies below \<open>2^prec\<close>.\<close>

lemma scaled_less:
  assumes "0 < r"
  shows "r / pow2 (quantum f r) < pow2 (int (prec f))"
proof -
  have "r < pow2 (ilog2 r + 1)"
    using assms by (rule ilog2_bounds)
  also have "\<dots> \<le> pow2 (quantum f r + int (prec f))"
    by (simp add: quantum_def)
  also have "\<dots> = pow2 (int (prec f)) * pow2 (quantum f r)"
    by (simp add: pow2_add)
  finally show ?thesis
    by (simp add: pos_divide_less_eq)
qed

text \<open>Multiples of a power of two that the format can hold are left alone.\<close>

lemma round_mag_multiple:
  assumes k: "0 < k" "of_int k \<le> pow2 (int (prec f))" and j: "qmin f \<le> j" and p: "1 \<le> prec f"
  shows "round_mag f (of_int k * pow2 j) = of_int k * pow2 j"
proof -
  define x where "x = of_int k * pow2 j"
  have x: "0 < x"
    using k by (simp add: x_def)
  have "x \<le> pow2 (int (prec f)) * pow2 j"
    unfolding x_def using k(2) by (simp add: mult_right_mono)
  then have xle: "x \<le> pow2 (int (prec f) + j)"
    by (simp add: pow2_add)
  have "pow2 (ilog2 x) \<le> x"
    using x by (rule ilog2_bounds)
  with xle have il: "ilog2 x \<le> int (prec f) + j"
    by (metis order_trans pow2_le_iff)
  show ?thesis
  proof (cases "quantum f x \<le> j")
    case True
    define d where "d = j - quantum f x"
    have d: "0 \<le> d"
      using True by (simp add: d_def)
    define Q where "Q = pow2 (quantum f x)"
    have Q: "0 < Q"
      by (simp add: Q_def)
    have pj: "pow2 j = pow2 d * Q"
      by (simp add: d_def Q_def pow2_add [symmetric])
    have "x = of_int k * pow2 d * Q"
      by (simp add: x_def pj)
    then have "x / Q = of_int k * pow2 d"
      using Q by simp
    then have "x / pow2 (quantum f x) = of_int k * pow2 d"
      by (simp only: Q_def)
    also have "\<dots> = of_int (k * 2 ^ nat d)"
      using d by (simp add: pow2_of_int)
    finally have "rhe (x / pow2 (quantum f x)) = k * 2 ^ nat d"
      by (simp only: rhe_of_int)
    then have "round_mag f x = of_int (k * 2 ^ nat d) * pow2 (quantum f x)"
      by (simp add: round_mag_def)
    also have "\<dots> = of_int k * (pow2 d * pow2 (quantum f x))"
      using d by (simp add: pow2_of_int)
    also have "\<dots> = x"
      by (simp add: x_def d_def pow2_add [symmetric])
    finally show ?thesis
      by (simp add: x_def)
  next
    case False
    with j il have qj: "quantum f x = j + 1" and ix: "ilog2 x = int (prec f) + j"
      by (auto simp: quantum_def max_def split: if_splits)
    have "pow2 (int (prec f) + j) \<le> x"
      using ilog2_bounds(1) [OF x] ix by simp
    with xle have xeq: "x = pow2 (int (prec f) + j)"
      by simp
    have "x / pow2 (quantum f x) = x / pow2 (j + 1)"
      by (simp only: qj)
    also have "\<dots> = pow2 (int (prec f) - 1)"
      by (simp add: xeq pow2_diff [symmetric])
    also have "\<dots> = of_int (2 ^ nat (int (prec f) - 1))"
      using p by (intro pow2_of_int) simp
    finally have "rhe (x / pow2 (quantum f x)) = 2 ^ nat (int (prec f) - 1)"
      by (simp only: rhe_of_int)
    then have "round_mag f x = of_int (2 ^ nat (int (prec f) - 1)) * pow2 (quantum f x)"
      by (simp add: round_mag_def)
    also have "of_int (2 ^ nat (int (prec f) - 1)) = pow2 (int (prec f) - 1)"
      using p by (subst pow2_of_int) simp_all
    also have "pow2 (int (prec f) - 1) * pow2 (quantum f x) =
        pow2 (int (prec f) - 1) * pow2 (j + 1)"
      by (simp only: qj)
    also have "\<dots> = x"
      by (simp add: xeq pow2_add [symmetric])
    finally show ?thesis
      by (simp add: x_def)
  qed
qed

text \<open>Rounding is idempotent: a rounded magnitude is a number of the format.\<close>

lemma round_mag_idem:
  assumes "0 < r" and p: "1 \<le> prec f"
  shows "round_mag f (round_mag f r) = round_mag f r"
proof -
  define n where "n = rhe (r / pow2 (quantum f r))"
  have rm: "round_mag f r = of_int n * pow2 (quantum f r)"
    by (simp add: round_mag_def n_def)
  have n0: "0 \<le> n"
    unfolding n_def using assms by (intro rhe_nonneg) simp
  have "pow2 (int (prec f)) = of_int (2 ^ prec f)"
    by (simp add: pow2_of_nat)
  then have "r / pow2 (quantum f r) \<le> of_int (2 ^ prec f)"
    using scaled_less [OF assms(1), of f] by simp
  then have "n \<le> 2 ^ prec f"
    unfolding n_def by (rule rhe_le)
  then have nle: "of_int n \<le> pow2 (int (prec f))"
    by (simp add: pow2_of_nat)
  show ?thesis
  proof (cases "n = 0")
    case True
    with rm have "round_mag f r = 0"
      by simp
    then show ?thesis
      by (simp add: round_mag_def)
  next
    case False
    with n0 have "0 < n"
      by simp
    then show ?thesis
      unfolding rm using nle qmin_le_quantum p by (rule round_mag_multiple)
  qed
qed

subsection \<open>Numbers of a format\<close>

lemma overflows_mono: "\<not> overflows f m \<Longrightarrow> r \<le> m \<Longrightarrow> \<not> overflows f r"
  by (auto simp: overflows_def)

lemma is_float_iff:
  "is_float f (Finite s m) \<longleftrightarrow> m = 0 \<or> 0 < m \<and> round_mag f m = m \<and> \<not> overflows f m"
  by (auto simp: round_fp_def Let_def)

declare is_float.simps(1) [simp del]

lemma round_fp_float:
  "0 < m \<Longrightarrow> round_mag f m = m \<Longrightarrow> \<not> overflows f m \<Longrightarrow> round_fp f s m = Finite s m"
  by (simp add: round_fp_def)

text \<open>A number of the format is an integer multiple of its quantum, and of every smaller one.\<close>

lemma float_multiple:
  assumes "0 < m" "round_mag f m = m" "q \<le> quantum f m"
  shows "\<exists>K. 0 < K \<and> m = of_int K * pow2 q"
proof -
  define M where "M = rhe (m / pow2 (quantum f m))"
  define d where "d = quantum f m - q"
  have m: "m = of_int M * pow2 (quantum f m)"
    using assms(2) by (simp add: round_mag_def M_def)
  have "pow2 (quantum f m) = pow2 d * pow2 q"
    by (simp add: d_def pow2_add [symmetric])
  also have "pow2 d = of_int (2 ^ nat d)"
    using assms(3) by (intro pow2_of_int) (simp add: d_def)
  finally have "m = of_int M * (of_int (2 ^ nat d) * pow2 q)"
    using m by simp
  then have eq: "m = of_int (M * 2 ^ nat d) * pow2 q"
    by simp
  define X where "X = M * 2 ^ nat d"
  have "0 < of_int X * pow2 q"
    using assms(1) eq by (simp only: X_def)
  then have "0 < (of_int X :: rat)"
    by (rule zero_less_mult_pos2) simp
  then have "0 < X"
    by (simp only: of_int_0_less_iff)
  moreover have "m = of_int X * pow2 q"
    using eq by (simp only: X_def)
  ultimately show ?thesis
    by blast
qed

lemma round_mag_le_float:
  assumes "0 < r" "r \<le> m" "round_mag f m = m"
  shows "round_mag f r \<le> m"
proof -
  have "0 < m"
    using assms by simp
  moreover have "quantum f r \<le> quantum f m"
    using assms by (intro quantum_mono)
  ultimately obtain K where K: "m = of_int K * pow2 (quantum f r)"
    using float_multiple [of m f "quantum f r"] assms(3) by blast
  have "r / pow2 (quantum f r) \<le> of_int K"
    using assms(2) by (simp add: K pos_divide_le_eq)
  then have "rhe (r / pow2 (quantum f r)) \<le> K"
    by (rule rhe_le)
  then have "(of_int (rhe (r / pow2 (quantum f r))) :: rat) \<le> of_int K"
    by (simp only: of_int_le_iff)
  then show ?thesis
    by (simp add: round_mag_def K mult_right_mono)
qed

lemma round_mag_pos:
  assumes "pow2 (qmin f) / 2 < r" and p: "1 \<le> prec f"
  shows "0 < round_mag f r"
proof -
  have r: "0 < r"
    using assms(1) pow2_pos [of "qmin f"] by linarith
  have "1 \<le> rhe (r / pow2 (quantum f r))"
  proof (cases "quantum f r = qmin f")
    case True
    have "1 / 2 < r / pow2 (qmin f)"
      using assms(1) by (simp add: pos_less_divide_eq)
    with rhe_error [of "r / pow2 (qmin f)"]
    have "0 < (of_int (rhe (r / pow2 (qmin f))) :: rat)"
      by linarith
    then have "0 < rhe (r / pow2 (qmin f))"
      by (simp only: of_int_0_less_iff)
    with True show ?thesis
      by simp
  next
    case False
    then have q: "quantum f r = ilog2 r - (int (prec f) - 1)"
      by (auto simp: quantum_def max_def split: if_splits)
    have "pow2 (ilog2 r) \<le> r"
      using r by (rule ilog2_bounds)
    also have "pow2 (ilog2 r) = pow2 (int (prec f) - 1) * pow2 (quantum f r)"
      by (simp add: q pow2_add [symmetric])
    finally have "pow2 (int (prec f) - 1) \<le> r / pow2 (quantum f r)"
      by (simp add: pos_le_divide_eq)
    moreover have "1 \<le> pow2 (int (prec f) - 1)"
      using pow2_le [of 0 "int (prec f) - 1"] p by simp
    ultimately have "1 \<le> r / pow2 (quantum f r)"
      by (rule order_trans [rotated])
    then have "of_int 1 \<le> r / pow2 (quantum f r)"
      by (simp only: of_int_1)
    then show ?thesis
      by (rule rhe_ge)
  qed
  then have "(0::rat) < of_int (rhe (r / pow2 (quantum f r)))"
    by simp
  then show ?thesis
    by (simp add: round_mag_def)
qed

text \<open>In a valid format the exponents are ordered as follows.\<close>

lemma valid_format_exponents:
  assumes "valid_format f"
  shows "emin f \<le> - int (prec f) - 1" and "qmin f \<le> - 2 * int (prec f)" and "2 \<le> prec f"
    and "0 \<le> emax f"
  using assms by (simp_all add: valid_format_def emin_def qmin_def)

lemma round_mag_one:
  assumes "valid_format f"
  shows "round_mag f 1 = 1"
proof -
  have "round_mag f (of_int (2 ^ (prec f - 1)) * pow2 (1 - int (prec f))) =
      of_int (2 ^ (prec f - 1)) * pow2 (1 - int (prec f))"
  proof (rule round_mag_multiple)
    show "0 < (2::int) ^ (prec f - 1)"
      by simp
    have "pow2 (int (prec f - 1)) \<le> pow2 (int (prec f))"
      by (intro pow2_le) simp
    then show "of_int (2 ^ (prec f - 1)) \<le> pow2 (int (prec f))"
      by (simp add: pow2_of_nat)
    show "qmin f \<le> 1 - int (prec f)"
      using valid_format_exponents [OF assms] by simp
    show "1 \<le> prec f"
      using valid_format_exponents [OF assms] by simp
  qed
  moreover have "of_int (2 ^ (prec f - 1)) * pow2 (1 - int (prec f)) = 1"
  proof -
    have "of_int (2 ^ (prec f - 1)) = pow2 (int (prec f - 1))"
      by (simp add: pow2_of_nat)
    also have "int (prec f - 1) = int (prec f) - 1"
      using valid_format_exponents [OF assms] by simp
    finally show ?thesis
      by (simp add: pow2_add [symmetric])
  qed
  ultimately show ?thesis
    by simp
qed

lemma not_overflows_one: "valid_format f \<Longrightarrow> \<not> overflows f 1"
proof -
  assume "valid_format f"
  then have "pow2 0 < pow2 (emax f + 1)"
    using valid_format_exponents(4) [of f] by (intro pow2_less) simp
  then show ?thesis
    by (simp add: overflows_def)
qed

subsection \<open>Adding a small number to a large one\<close>

text \<open>
  A reference value \<open>v\<close> of at least \<open>2^(emin + prec + 1)\<close> absorbs every magnitude
  \<open>x\<close> below the smallest normal number: \<open>x\<close> is less than a quarter of the quantum of \<open>v\<close>.
\<close>

lemma large_value_facts:
  assumes v: "pow2 (emin f + int (prec f) + 1) \<le> v" "round_mag f v = v"
    and x: "x < pow2 (emin f)" and p: "1 \<le> prec f"
  shows "quantum f v = ilog2 v - (int (prec f) - 1)"
    and "v = of_int (rhe (v / pow2 (quantum f v))) * pow2 (quantum f v)"
    and "x < pow2 (quantum f v - 2)"
    and "qmin f \<le> quantum f v - 2"
    and "0 < v"
proof -
  have v0: "0 < v"
    using v(1) pow2_pos [of "emin f + int (prec f) + 1"] by linarith
  have "pow2 (emin f + int (prec f) + 1) < pow2 (ilog2 v + 1)"
    using v(1) ilog2_bounds(2) [OF v0] by (rule le_less_trans)
  then have E: "emin f + int (prec f) + 1 \<le> ilog2 v"
    by simp
  then show q: "quantum f v = ilog2 v - (int (prec f) - 1)"
    by (simp add: quantum_def qmin_def)
  show "v = of_int (rhe (v / pow2 (quantum f v))) * pow2 (quantum f v)"
    using v(2) by (simp add: round_mag_def)
  have "pow2 (emin f) \<le> pow2 (quantum f v - 2)"
    unfolding q using E by (intro pow2_le) simp
  with x show "x < pow2 (quantum f v - 2)"
    by (rule less_le_trans)
  show "qmin f \<le> quantum f v - 2"
    unfolding q using E p by (simp add: qmin_def)
  show "0 < v"
    by fact
qed

lemma round_mag_absorbs_plus:
  assumes v: "pow2 (emin f + int (prec f) + 1) \<le> v" "round_mag f v = v"
    and x: "0 \<le> x" "x < pow2 (emin f)" and p: "1 \<le> prec f"
  shows "round_mag f (v + x) = v"
proof -
  note lf = large_value_facts [OF v x(2) p]
  define q where "q = quantum f v"
  define V where "V = rhe (v / pow2 q)"
  have vq: "v = of_int V * pow2 q"
    using lf(2) by (simp add: q_def V_def)
  have qE: "ilog2 v + 1 = q + int (prec f)"
    using lf(1) by (simp add: q_def)
  have "pow2 (q - 2) \<le> pow2 q"
    by (intro pow2_le) simp
  with lf(3) have xq: "x < pow2 q"
    unfolding q_def by (rule less_le_trans)
  have "of_int V * pow2 q < pow2 (int (prec f)) * pow2 q"
    using ilog2_bounds(2) [OF lf(5)] by (simp add: qE pow2_add vq [symmetric] mult.commute)
  then have "of_int V < pow2 (int (prec f))"
    by (simp only: mult_less_cancel_right_pos pow2_pos)
  then have "(of_int V :: rat) < of_int (2 ^ prec f)"
    by (simp add: pow2_of_nat)
  then have "V < 2 ^ prec f"
    by (simp only: of_int_less_iff)
  then have "V + 1 \<le> 2 ^ prec f"
    by simp
  then have "(of_int (V + 1) :: rat) \<le> of_int (2 ^ prec f)"
    by (simp only: of_int_le_iff)
  then have "of_int (V + 1) \<le> pow2 (int (prec f))"
    by (simp add: pow2_of_nat)
  then have "of_int (V + 1) * pow2 q \<le> pow2 (int (prec f)) * pow2 q"
    by (intro mult_right_mono) simp_all
  moreover have "of_int (V + 1) * pow2 q = v + pow2 q"
    by (simp add: vq algebra_simps)
  moreover have "pow2 (int (prec f)) * pow2 q = pow2 (ilog2 v + 1)"
    by (simp only: qE) (simp add: pow2_add mult.commute)
  ultimately have "v + pow2 q \<le> pow2 (ilog2 v + 1)"
    by simp
  with xq have hi: "v + x < pow2 (ilog2 v + 1)"
    by linarith
  have lo: "pow2 (ilog2 v) \<le> v + x"
    using ilog2_bounds(1) [OF lf(5)] x(1) by linarith
  have "ilog2 (v + x) = ilog2 v"
    using lf(5) x(1) lo hi by (intro ilog2_unique) simp_all
  then have qq: "quantum f (v + x) = q"
    by (simp add: quantum_def q_def)
  have "x / pow2 q < pow2 (q - 2) / pow2 q"
    using lf(3) by (simp add: q_def divide_strict_right_mono)
  also have "\<dots> = pow2 (- 2)"
    by (simp add: pow2_diff [symmetric])
  also have "\<dots> < 1 / 2"
    by (simp add: pow2_def power_int_def power2_eq_square)
  finally have small: "x / pow2 q < 1 / 2" .
  define y where "y = x / pow2 q"
  have y: "0 \<le> y" "y < 1 / 2"
    using x(1) small by (simp_all add: y_def)
  have sc: "(v + x) / pow2 q = of_int V + y"
    by (simp add: vq add_divide_distrib y_def)
  have "rhe ((v + x) / pow2 q) = V"
  proof (rule rhe_near)
    show "\<bar>of_int V - (v + x) / pow2 q\<bar> < 1 / 2"
      unfolding sc using y by simp
  qed
  then have "round_mag f (v + x) = of_int V * pow2 q"
    by (simp add: round_mag_def qq)
  then show ?thesis
    by (simp only: vq [symmetric])
qed

lemma round_mag_absorbs_minus:
  assumes v: "pow2 (emin f + int (prec f) + 1) \<le> v" "round_mag f v = v"
    and x: "0 < x" "x < pow2 (emin f)" and p: "1 \<le> prec f"
  shows "round_mag f (v - x) = v"
proof -
  note lf = large_value_facts [OF v x(2) p]
  define q where "q = quantum f v"
  define V where "V = rhe (v / pow2 q)"
  define E where "E = ilog2 v"
  have vq: "v = of_int V * pow2 q"
    using lf(2) by (simp add: q_def V_def)
  have qE: "E = q + (int (prec f) - 1)"
    using lf(1) by (simp add: q_def E_def)
  have vE: "pow2 E \<le> v" "v < pow2 (E + 1)"
    using ilog2_bounds [OF lf(5)] by (simp_all add: E_def)
  have "pow2 (q - 2) \<le> pow2 (q - 1)"
    by (intro pow2_le) simp
  with lf(3) have xq1: "x < pow2 (q - 1)"
    unfolding q_def by (rule less_le_trans)
  have half: "pow2 (q - 1) = pow2 q / 2"
    by (rule pow2_pred)
  show ?thesis
  proof (cases "pow2 E \<le> v - x")
    case True
    have "0 < v - x"
      using True pow2_pos [of E] by linarith
    moreover have "v - x < pow2 (E + 1)"
      using vE(2) x(1) by linarith
    ultimately have "ilog2 (v - x) = E"
      using True by (intro ilog2_unique)
    then have qq: "quantum f (v - x) = q"
      by (simp add: quantum_def q_def E_def)
    have "x / pow2 q < pow2 (q - 1) / pow2 q"
      using xq1 by (simp add: divide_strict_right_mono)
    also have "\<dots> = 1 / 2"
      by (simp add: half)
    finally have small: "x / pow2 q < 1 / 2" .
    define y where "y = x / pow2 q"
    have y: "0 \<le> y" "y < 1 / 2"
      using x(1) small by (simp_all add: y_def)
    have sc: "(v - x) / pow2 q = of_int V - y"
      by (simp add: vq diff_divide_distrib y_def)
    have "rhe ((v - x) / pow2 q) = V"
    proof (rule rhe_near)
      show "\<bar>of_int V - (v - x) / pow2 q\<bar> < 1 / 2"
        unfolding sc using y by simp
    qed
    then have "round_mag f (v - x) = of_int V * pow2 q"
      by (simp add: round_mag_def qq)
    then show ?thesis
      by (simp only: vq [symmetric])
  next
    case False
    have "E = (int (prec f) - 1) + q"
      using qE by simp
    then have pE: "pow2 E = pow2 (int (prec f) - 1) * pow2 q"
      by (simp only: pow2_add)
    have pp: "pow2 (int (prec f) - 1) = of_int (2 ^ nat (int (prec f) - 1))"
      using p by (intro pow2_of_int) simp
    define P where "P = (2::int) ^ nat (int (prec f) - 1)"
    have pE': "pow2 E = of_int P * pow2 q"
      by (simp add: pE pp P_def)
    have "of_int P * pow2 q \<le> of_int V * pow2 q"
      using vE(1) by (simp only: pE' vq [symmetric])
    then have "(of_int P :: rat) \<le> of_int V"
      by (simp only: mult_le_cancel_right_pos pow2_pos)
    then have PV: "P \<le> V"
      by (simp only: of_int_le_iff)
    have "of_int V * pow2 q - x < of_int P * pow2 q"
      using False by (simp add: pE' vq [symmetric])
    moreover have "x < pow2 q"
      using xq1 half pow2_pos [of q] by linarith
    ultimately have "of_int V * pow2 q < of_int (P + 1) * pow2 q"
      by (simp add: algebra_simps)
    then have "(of_int V :: rat) < of_int (P + 1)"
      by (simp only: mult_less_cancel_right_pos pow2_pos)
    then have "V < P + 1"
      by (simp only: of_int_less_iff)
    with PV have "V = P"
      by simp
    then have veq: "v = pow2 E"
      by (simp add: vq pE')
    have x2: "x < pow2 (E - 1)"
    proof -
      have "pow2 (q - 1) \<le> pow2 (E - 1)"
        using p by (intro pow2_le) (simp add: qE)
      with xq1 show ?thesis
        by (rule less_le_trans)
    qed
    have "pow2 (E - 1) = pow2 E / 2"
      by (rule pow2_pred)
    with x2 have lo: "pow2 (E - 1) \<le> v - x"
      by (simp add: veq)
    have hi: "v - x < pow2 (E - 1 + 1)"
      using x(1) by (simp add: veq)
    have "0 < v - x"
      using lo pow2_pos [of "E - 1"] by linarith
    then have "ilog2 (v - x) = E - 1"
      using lo hi by (intro ilog2_unique)
    then have qq: "quantum f (v - x) = q - 1"
      using lf(4) by (simp add: quantum_def q_def qE)
    have "E = int (prec f) + (q - 1)"
      using qE by simp
    then have "pow2 E = pow2 (int (prec f)) * pow2 (q - 1)"
      by (simp only: pow2_add)
    also have "pow2 (int (prec f)) = of_int (2 ^ prec f)"
      by (simp add: pow2_of_nat)
    finally have pE2: "pow2 E = of_int (2 ^ prec f) * pow2 (q - 1)" .
    have small: "x / pow2 (q - 1) < 1 / 2"
    proof -
      have "x / pow2 (q - 1) < pow2 (q - 2) / pow2 (q - 1)"
        using lf(3) by (simp add: q_def divide_strict_right_mono)
      also have "\<dots> = pow2 (- 1)"
        by (simp add: pow2_diff [symmetric])
      also have "\<dots> = 1 / 2"
        by (simp add: pow2_def power_int_def)
      finally show ?thesis .
    qed
    define y where "y = x / pow2 (q - 1)"
    have y: "0 \<le> y" "y < 1 / 2"
      using x(1) small by (simp_all add: y_def)
    have sc: "(v - x) / pow2 (q - 1) = of_int (2 ^ prec f) - y"
      by (simp add: veq pE2 diff_divide_distrib y_def)
    have "rhe ((v - x) / pow2 (q - 1)) = 2 ^ prec f"
    proof (rule rhe_near)
      show "\<bar>of_int (2 ^ prec f) - (v - x) / pow2 (q - 1)\<bar> < 1 / 2"
        unfolding sc using y by simp
    qed
    then have "round_mag f (v - x) = of_int (2 ^ prec f) * pow2 (q - 1)"
      by (simp add: round_mag_def qq)
    then show ?thesis
      by (simp only: pE2 [symmetric] veq)
  qed
qed

lemma fadd_absorbs:
  assumes v: "pow2 (emin f + int (prec f) + 1) \<le> v" "round_mag f v = v" "\<not> overflows f v"
    and x: "0 \<le> x" "x < pow2 (emin f)" and p: "1 \<le> prec f"
  shows "fadd f (Finite t v) (Finite s x) = Finite t v"
proof -
  note lf = large_value_facts [OF v(1,2) x(2) p]
  have "pow2 (quantum f v - 2) \<le> pow2 (quantum f v)"
    by (intro pow2_le) simp
  with lf(3) have "x < pow2 (quantum f v)"
    by (rule less_le_trans)
  moreover have "pow2 (quantum f v) \<le> v"
  proof -
    have "pow2 (quantum f v) \<le> pow2 (ilog2 v)"
      using p by (intro pow2_le) (simp add: lf(1))
    also have "\<dots> \<le> v"
      using lf(5) by (rule ilog2_bounds)
    finally show ?thesis .
  qed
  ultimately have xv: "x < v"
    by simp
  have same: "round_fp f t (v + x) = Finite t v"
    using round_mag_absorbs_plus [OF v(1,2) x p] v(3) lf(5) x(1) by (simp add: round_fp_def)
  have diff: "round_fp f t (v - x) = Finite t v"
  proof (cases "x = 0")
    case True
    with same show ?thesis
      by simp
  next
    case False
    with x(1) have "0 < x"
      by simp
    from round_mag_absorbs_minus [OF v(1,2) this x(2) p] v(3) xv show ?thesis
      by (simp add: round_fp_def)
  qed
  show ?thesis
  proof (cases "s = t")
    case True
    have "signed t v + signed t x = signed t (v + x)"
      by (simp add: signed_def)
    moreover have "signed t (v + x) \<noteq> 0" "(signed t (v + x) < 0) = t"
      "\<bar>signed t (v + x)\<bar> = v + x"
      using lf(5) x(1) by (auto simp: signed_def)
    ultimately show ?thesis
      using same True by simp
  next
    case False
    then have "signed t v + signed s x = signed t (v - x)"
      by (cases s; cases t) (simp_all add: signed_def)
    moreover have "signed t (v - x) \<noteq> 0" "(signed t (v - x) < 0) = t"
      "\<bar>signed t (v - x)\<bar> = v - x"
      using xv by (auto simp: signed_def)
    ultimately show ?thesis
      using diff by simp
  qed
qed

text \<open>The reference value 1 is such a value.\<close>

lemma one_is_large: "valid_format f \<Longrightarrow> pow2 (emin f + int (prec f) + 1) \<le> 1"
proof -
  assume "valid_format f"
  then have "pow2 (emin f + int (prec f) + 1) \<le> pow2 0"
    using valid_format_exponents(1) [of f] by (intro pow2_le) simp
  then show ?thesis
    by simp
qed

subsection \<open>Dividing a normal number by a divisor greater than one\<close>

text \<open>A number of the format that is greater than one is at least the successor of one.\<close>

lemma divisor_lower_bound:
  assumes v: "valid_format f" and n: "1 < n" "round_mag f n = n"
  shows "1 + pow2 (1 - int (prec f)) \<le> n"
proof -
  note e = valid_format_exponents [OF v]
  define p where "p = int (prec f)"
  have p: "2 \<le> p"
    using e by (simp add: p_def)
  have "ilog2 1 \<le> ilog2 n"
    using n by (intro ilog2_mono) simp_all
  moreover have "ilog2 1 = 0"
    using ilog2_pow2 [of 0] by simp
  ultimately have "1 - p \<le> quantum f n"
    by (simp add: quantum_def p_def)
  with n obtain K where K: "n = of_int K * pow2 (1 - p)"
    using float_multiple [of n f "1 - p"] by auto
  have one: "1 = of_int (2 ^ nat (p - 1)) * pow2 (1 - p)"
  proof -
    have "of_int (2 ^ nat (p - 1)) = pow2 (p - 1)"
      using p by (subst pow2_of_int) simp_all
    then show ?thesis
      by (simp add: pow2_add [symmetric])
  qed
  have "of_int (2 ^ nat (p - 1)) * pow2 (1 - p) < of_int K * pow2 (1 - p)"
    using n(1) K one by simp
  then have "(of_int (2 ^ nat (p - 1)) :: rat) < of_int K"
    by (simp only: mult_less_cancel_right_pos pow2_pos)
  then have "2 ^ nat (p - 1) < K"
    by (simp only: of_int_less_iff)
  then have "2 ^ nat (p - 1) + 1 \<le> K"
    by simp
  then have "(of_int (2 ^ nat (p - 1) + 1) :: rat) \<le> of_int K"
    by (simp only: of_int_le_iff)
  then have "of_int (2 ^ nat (p - 1) + 1) * pow2 (1 - p) \<le> of_int K * pow2 (1 - p)"
    by (intro mult_right_mono) simp_all
  also have "of_int (2 ^ nat (p - 1) + 1) * pow2 (1 - p) =
      of_int (2 ^ nat (p - 1)) * pow2 (1 - p) + pow2 (1 - p)"
    by (simp add: algebra_simps)
  finally show ?thesis
    using one K by (simp add: p_def)
qed

text \<open>The quotient of a normal number by such a divisor rounds strictly below the number.\<close>

lemma round_mag_divide_less:
  assumes v: "valid_format f"
    and m: "pow2 (emin f) \<le> m" "round_mag f m = m"
    and n: "1 < n" "round_mag f n = n"
  shows "round_mag f (m / n) < m"
proof -
  note e = valid_format_exponents [OF v]
  define p where "p = int (prec f)"
  define u where "u = pow2 (1 - p)"
  define q where "q = quantum f m"
  define h where "h = pow2 q / 2"
  define r where "r = m / n"
  have p: "2 \<le> p"
    using e by (simp add: p_def)
  have m0: "0 < m"
    using m(1) pow2_pos [of "emin f"] by linarith
  have r0: "0 < r"
    using m0 n by (simp add: r_def)
  have h0: "0 < h"
    by (simp add: h_def)
  have u0: "0 < u"
    by (simp add: u_def)
  have "u \<le> pow2 (- 1)"
    unfolding u_def using p by (intro pow2_le) simp
  then have u1: "u \<le> 1 / 2"
    by (simp add: pow2_def power_int_def)
  have nu: "1 + u \<le> n"
    using divisor_lower_bound [OF v n] by (simp add: u_def p_def)
  have "pow2 (emin f) < pow2 (ilog2 m + 1)"
    using m(1) ilog2_bounds(2) [OF m0] by (rule le_less_trans)
  then have "emin f \<le> ilog2 m"
    by simp
  then have qm: "q = ilog2 m - (p - 1)"
    by (simp add: q_def quantum_def qmin_def p_def)
  have "q = ilog2 m + (1 - p)"
    using qm by simp
  then have "pow2 q = pow2 (ilog2 m) * u"
    by (simp only: u_def pow2_add)
  also have "\<dots> \<le> m * u"
    using ilog2_bounds(1) [OF m0] u0 by (intro mult_right_mono) simp_all
  finally have mu: "2 * h \<le> m * u"
    by (simp add: h_def)
  have "r \<le> m / (1 + u)"
    unfolding r_def using m0 u0 nu by (intro divide_left_mono) simp_all
  moreover have "m / (1 + u) < m - h"
  proof -
    have "h * u < h"
      using h0 u1 by simp
    with mu have "h + h * u < m * u"
      by linarith
    then have "m < (m - h) * (1 + u)"
      by (simp add: algebra_simps)
    then show ?thesis
      using u0 by (simp add: pos_divide_less_eq)
  qed
  ultimately have gap: "r < m - h"
    by simp
  have "quantum f r \<le> q"
    unfolding q_def using r0 gap h0 by (intro quantum_mono) simp_all
  then obtain K where K: "m = of_int K * pow2 (quantum f r)"
    using float_multiple [of m f "quantum f r"] m0 m(2) unfolding q_def by blast
  have "quantum f r \<le> q"
    by fact
  then obtain J where J: "pow2 q = of_int J * pow2 (quantum f r)"
  proof -
    assume a: "\<And>J. pow2 q = of_int J * pow2 (quantum f r) \<Longrightarrow> thesis"
    have "pow2 q = pow2 (q - quantum f r) * pow2 (quantum f r)"
      by (simp add: pow2_add [symmetric])
    also have "pow2 (q - quantum f r) = of_int (2 ^ nat (q - quantum f r))"
      using \<open>quantum f r \<le> q\<close> by (intro pow2_of_int) simp
    finally show thesis
      by (rule a)
  qed
  have "m - 2 * h = of_int (K - J) * pow2 (quantum f r)"
    using K J by (simp add: h_def algebra_simps)
  then have "\<bar>round_mag f r - r\<bar> \<le> \<bar>(m - 2 * h) - r\<bar>"
    using round_mag_nearest [of f r "K - J"] by simp
  with gap h0 have "round_mag f r < m"
    by linarith
  then show ?thesis
    by (simp add: r_def)
qed

subsection \<open>Multiplying a normal number by a divisor greater than one\<close>

lemma round_mag_times_greater:
  assumes v: "valid_format f"
    and m: "pow2 (emin f) \<le> m" "round_mag f m = m"
    and n: "1 < n" "round_mag f n = n"
  shows "m < round_mag f (m * n)"
proof -
  note e = valid_format_exponents [OF v]
  define p where "p = int (prec f)"
  define u where "u = pow2 (1 - p)"
  define q where "q = quantum f m"
  define r where "r = m * n"
  have p: "2 \<le> p"
    using e by (simp add: p_def)
  have m0: "0 < m"
    using m(1) pow2_pos [of "emin f"] by linarith
  have nu: "1 + u \<le> n"
    using divisor_lower_bound [OF v n] by (simp add: u_def p_def)
  have "pow2 (emin f) < pow2 (ilog2 m + 1)"
    using m(1) ilog2_bounds(2) [OF m0] by (rule le_less_trans)
  then have em: "emin f \<le> ilog2 m"
    by simp
  then have qm: "q = ilog2 m - (p - 1)"
    by (simp add: q_def quantum_def qmin_def p_def)
  have "q = ilog2 m + (1 - p)"
    using qm by simp
  then have "pow2 q = pow2 (ilog2 m) * u"
    by (simp only: u_def pow2_add)
  also have "\<dots> \<le> m * u"
    using ilog2_bounds(1) [OF m0] by (intro mult_right_mono) (simp_all add: u_def)
  finally have mu: "pow2 q \<le> m * u" .
  have "m * (1 + u) \<le> m * n"
    using m0 nu by (intro mult_left_mono) simp_all
  with mu have up: "m + pow2 q \<le> r"
    by (simp add: r_def algebra_simps)
  then have mr: "m < r"
    using pow2_pos [of q] by linarith
  then have r0: "0 < r"
    using m0 by simp
  have qle: "q \<le> quantum f r"
    unfolding q_def using m0 mr by (intro quantum_mono) simp_all
  have "m < of_int (rhe (r / pow2 (quantum f r))) * pow2 (quantum f r)"
  proof (cases "quantum f r = q")
    case True
    obtain K where K: "m = of_int K * pow2 q"
      using float_multiple [of m f q] m0 m(2) by (auto simp: q_def)
    have "of_int (K + 1) * pow2 q \<le> r"
      using up by (simp add: K algebra_simps)
    then have "of_int (K + 1) \<le> r / pow2 q"
      by (simp add: pos_le_divide_eq)
    then have "K + 1 \<le> rhe (r / pow2 q)"
      by (rule rhe_ge)
    then have "(of_int (K + 1) :: rat) \<le> of_int (rhe (r / pow2 q))"
      by (simp only: of_int_le_iff)
    then have "of_int (K + 1) * pow2 q \<le> of_int (rhe (r / pow2 q)) * pow2 q"
      by (intro mult_right_mono) simp_all
    moreover have "m < of_int (K + 1) * pow2 q"
      by (simp add: K algebra_simps)
    ultimately show ?thesis
      by (simp only: True)
  next
    case False
    with qle have qlt: "q < quantum f r"
      by simp
    have "qmin f \<le> q"
      unfolding q_def by (rule qmin_le_quantum)
    with qlt have qr: "quantum f r = ilog2 r - (p - 1)"
      by (auto simp: quantum_def max_def p_def split: if_splits)
    with qlt qm have il: "ilog2 m + 1 \<le> ilog2 r"
      by simp
    have "ilog2 r = (p - 1) + quantum f r"
      using qr by simp
    then have "pow2 (ilog2 r) = pow2 (p - 1) * pow2 (quantum f r)"
      by (simp only: pow2_add)
    also have "pow2 (p - 1) = of_int (2 ^ nat (p - 1))"
      using p by (intro pow2_of_int) simp
    finally have pr: "pow2 (ilog2 r) = of_int (2 ^ nat (p - 1)) * pow2 (quantum f r)" .
    have "of_int (2 ^ nat (p - 1)) * pow2 (quantum f r) \<le> r"
      using ilog2_bounds(1) [OF r0] by (simp only: pr)
    then have "of_int (2 ^ nat (p - 1)) \<le> r / pow2 (quantum f r)"
      by (simp add: pos_le_divide_eq)
    then have "2 ^ nat (p - 1) \<le> rhe (r / pow2 (quantum f r))"
      by (rule rhe_ge)
    then have "(of_int (2 ^ nat (p - 1)) :: rat) \<le> of_int (rhe (r / pow2 (quantum f r)))"
      by (simp only: of_int_le_iff)
    then have "of_int (2 ^ nat (p - 1)) * pow2 (quantum f r) \<le>
        of_int (rhe (r / pow2 (quantum f r))) * pow2 (quantum f r)"
      by (intro mult_right_mono) simp_all
    then have "pow2 (ilog2 r) \<le> of_int (rhe (r / pow2 (quantum f r))) * pow2 (quantum f r)"
      by (simp only: pr)
    moreover have "pow2 (ilog2 m + 1) \<le> pow2 (ilog2 r)"
      using il by (rule pow2_le)
    moreover have "m < pow2 (ilog2 m + 1)"
      using m0 by (rule ilog2_bounds)
    ultimately show ?thesis
      by linarith
  qed
  then show ?thesis
    by (simp add: round_mag_def r_def)
qed

lemma fmul_greater:
  assumes v: "valid_format f"
    and m: "pow2 (emin f) \<le> m" "is_float f (Finite False m)"
    and d: "is_float f divisor" "fless (Finite False 1) divisor"
  shows "fless (Finite False m) (fmul f (Finite False m) divisor)"
proof -
  have m0: "0 < m"
    using m(1) pow2_pos [of "emin f"] by linarith
  with m(2) have mf: "round_mag f m = m"
    by (simp add: is_float_iff)
  show ?thesis
  proof (cases divisor)
    case (Finite u n)
    with d(1) have n0: "0 \<le> n"
      by (auto simp: is_float_iff)
    with d(2) Finite have u: "u = False" and n1: "1 < n"
      by (auto simp: signed_def split: if_splits)
    with d(1) Finite have "round_mag f n = n"
      by (simp add: is_float_iff)
    with v m(1) mf n1 have "m < round_mag f (m * n)"
      by (intro round_mag_times_greater)
    with m0 n1 show ?thesis
      by (simp add: Finite u round_fp_def signed_def Let_def)
  next
    case (Infinity u)
    with d(2) m0 show ?thesis
      by simp
  next
    case NaN
    with d(2) show ?thesis
      by simp
  qed
qed

section \<open>Facts about the loops\<close>

subsection \<open>The loop of \<open>accuracy_bound\<close>\<close>

lemma guess_after_shift:
  "guess_after f d (fdiv f g d) k = guess_after f d g (Suc k)"
  by (induction k) simp_all

lemma accuracy_loop_exit:
  "\<not> fneq (fadd f v g) v \<Longrightarrow> accuracy_loop f v d g = Some g"
  by (subst accuracy_loop.simps) simp

lemma accuracy_loop_step:
  "fneq (fadd f v g) v \<Longrightarrow> accuracy_loop f v d g = accuracy_loop f v d (fdiv f g d)"
  by (subst accuracy_loop.simps) simp

lemma accuracy_loop_reaches:
  "\<not> fneq (fadd f v (guess_after f d g k)) v \<Longrightarrow>
   (\<And>j. j < k \<Longrightarrow> fneq (fadd f v (guess_after f d g j)) v) \<Longrightarrow>
   accuracy_loop f v d g = Some (guess_after f d g k)"
proof (induction k arbitrary: g)
  case 0
  then show ?case
    by (simp add: accuracy_loop_exit)
next
  case (Suc k)
  have "fneq (fadd f v g) v"
    using Suc.prems(2) [of 0] by simp
  then have "accuracy_loop f v d g = accuracy_loop f v d (fdiv f g d)"
    by (rule accuracy_loop_step)
  also have "\<dots> = Some (guess_after f d (fdiv f g d) k)"
  proof (rule Suc.IH)
    show "\<not> fneq (fadd f v (guess_after f d (fdiv f g d) k)) v"
      using Suc.prems(1) unfolding guess_after_shift .
    show "fneq (fadd f v (guess_after f d (fdiv f g d) j)) v" if "j < k" for j
    proof -
      from that have "fneq (fadd f v (guess_after f d g (Suc j))) v"
        by (intro Suc.prems(2)) simp
      then show ?thesis
        by (simp only: guess_after_shift)
    qed
  qed
  finally show ?case
    by (simp only: guess_after_shift)
qed

lemma accuracy_loop_trace:
  assumes "accuracy_loop f v d g = Some e"
  shows "\<exists>k. e = guess_after f d g k \<and> \<not> fneq (fadd f v e) v \<and>
           (\<forall>j<k. fneq (fadd f v (guess_after f d g j)) v)"
  using assms
proof (induct rule: accuracy_loop.raw_induct [rotated 1, consumes 1, case_names step])
  case (step loop f v d g e)
  note 1 = step
  show ?case
  proof (cases "fneq (fadd f v g) v")
    case False
    with 1(2) have "e = g"
      by simp
    with False show ?thesis
      by (intro exI [of _ 0]) simp
  next
    case True
    with 1(2) have "loop f v d (fdiv f g d) = Some e"
      by simp
    from 1(1) [OF this] obtain k where k: "e = guess_after f d (fdiv f g d) k"
      "\<not> fneq (fadd f v e) v"
      "\<forall>j<k. fneq (fadd f v (guess_after f d (fdiv f g d) j)) v"
      by blast
    have "fneq (fadd f v (guess_after f d g j)) v" if "j < Suc k" for j
    proof (cases j)
      case 0
      with True show ?thesis by simp
    next
      case (Suc i)
      with that k(3) have "fneq (fadd f v (guess_after f d (fdiv f g d) i)) v"
        by simp
      with Suc show ?thesis
        by (simp only: guess_after_shift)
    qed
    with k(1,2) show ?thesis
      by (intro exI [of _ "Suc k"]) (simp only: guess_after_shift, blast)
  qed
qed

lemma accuracy_loop_None_iff:
  "accuracy_loop f v d g = None \<longleftrightarrow> (\<forall>k. fneq (fadd f v (guess_after f d g k)) v)"
proof
  assume n: "accuracy_loop f v d g = None"
  show "\<forall>k. fneq (fadd f v (guess_after f d g k)) v"
  proof (rule ccontr)
    assume "\<not> (\<forall>k. fneq (fadd f v (guess_after f d g k)) v)"
    then obtain k where k: "\<not> fneq (fadd f v (guess_after f d g k)) v"
      by blast
    define m where "m = (LEAST k. \<not> fneq (fadd f v (guess_after f d g k)) v)"
    have "\<not> fneq (fadd f v (guess_after f d g m)) v"
      unfolding m_def using k by (rule LeastI)
    moreover have "fneq (fadd f v (guess_after f d g j)) v" if "j < m" for j
      using that not_less_Least [of j "\<lambda>k. \<not> fneq (fadd f v (guess_after f d g k)) v"]
      by (auto simp: m_def)
    ultimately have "accuracy_loop f v d g = Some (guess_after f d g m)"
      by (rule accuracy_loop_reaches)
    with n show False
      by simp
  qed
next
  assume a: "\<forall>k. fneq (fadd f v (guess_after f d g k)) v"
  show "accuracy_loop f v d g = None"
  proof (cases "accuracy_loop f v d g")
    case None
    then show ?thesis .
  next
    case (Some e)
    from accuracy_loop_trace [OF this] a show ?thesis
      by blast
  qed
qed

subsection \<open>The loop of \<open>accuracy_vector\<close>\<close>

declare av_loop.simps [simp del] av_loop_st.simps [simp del]

lemma unat_succ_below: "i < sz \<Longrightarrow> unat (i + 1 :: 32 word) = Suc (unat i)"
proof -
  assume "i < sz"
  then have "unat i < unat sz"
    by (simp add: word_less_nat_alt)
  moreover have "unat sz < 2 ^ 32"
    using unsigned_less [of sz] by simp
  ultimately have "unat i + unat (1 :: 32 word) < 2 ^ LENGTH(32)"
    by simp
  then have "unat (i + 1) = unat i + unat (1 :: 32 word)"
    by (rule iffD1 [OF unat_add_lem])
  then show ?thesis
    by simp
qed

lemma av_loop_refine:
  "unat i \<le> unat sz \<Longrightarrow> length out = unat sz \<Longrightarrow> unat sz \<le> length ds \<Longrightarrow>
   av_loop f v ds sz i g out =
     map_option (\<lambda>rs. take (unat i) out @ rs)
       (refine_spec f v (drop (unat i) (take (unat sz) ds)) g)"
proof (induction f v ds sz i g out rule: av_loop.induct)
  case (1 f v ds sz i g out)
  show ?case
  proof (cases "i < sz")
    case False
    with "1.prems" have "unat i = unat sz"
      by (simp add: word_less_nat_alt)
    with False "1.prems" show ?thesis
      by (simp add: av_loop.simps [of f v ds sz i g out])
  next
    case True
    then have lt: "unat i < unat sz"
      by (simp add: word_less_nat_alt)
    have suc: "unat (i + 1) = Suc (unat i)"
      using True by (rule unat_succ_below)
    have dr: "drop (unat i) (take (unat sz) ds) =
        ds ! unat i # drop (Suc (unat i)) (take (unat sz) ds)"
      using lt "1.prems" by (simp add: Cons_nth_drop_Suc [symmetric])
    show ?thesis
    proof (cases "accuracy_bound f v (ds ! unat i) g")
      case None
      with True dr show ?thesis
        by (simp add: av_loop.simps [of f v ds sz i g out])
    next
      case (Some r)
      have rd: "out[unat i := r] ! unat i = r"
        using lt "1.prems" by simp
      have tk: "take (Suc (unat i)) (out[unat i := r]) = take (unat i) out @ [r]"
        using lt "1.prems" by (simp add: take_Suc_conv_app_nth)
      have "av_loop f v ds sz (i + 1) (out[unat i := r] ! unat i) (out[unat i := r]) =
          map_option (\<lambda>rs. take (unat (i + 1)) (out[unat i := r]) @ rs)
            (refine_spec f v (drop (unat (i + 1)) (take (unat sz) ds))
              (out[unat i := r] ! unat i))"
        using True Some lt "1.prems" suc by (intro "1.IH") auto
      with True Some dr rd tk suc show ?thesis
        by (simp add: av_loop.simps [of f v ds sz i g out] split: option.splits)
    qed
  qed
qed

lemma accuracy_vector_refine:
  "accuracy_vector f v ds g = refine_spec f v (take (length ds mod 2 ^ 32) ds) g"
proof -
  have "unat (word_of_nat (length ds) :: 32 word) = length ds mod 2 ^ 32"
    by (simp add: unat_of_nat)
  moreover have "length ds mod 2 ^ 32 \<le> length ds"
    by simp
  moreover have "map_option ((@) []) x = x" for x :: "fp list option"
    by (cases x) simp_all
  ultimately show ?thesis
    unfolding accuracy_vector_def Let_def
    by (subst av_loop_refine) simp_all
qed

lemma refine_spec_length: "refine_spec f v ds g = Some out \<Longrightarrow> length out = length ds"
  by (induction ds arbitrary: g out) (auto split: option.splits)

lemma refine_spec_nth:
  "refine_spec f v ds g = Some out \<Longrightarrow> i < length out \<Longrightarrow>
   accuracy_bound f v (ds ! i) (if i = 0 then g else out ! (i - 1)) = Some (out ! i)"
proof (induction ds arbitrary: g out i)
  case Nil
  then show ?case by simp
next
  case (Cons d ds)
  from Cons.prems(1) obtain r rs where r: "accuracy_bound f v d g = Some r"
    and rs: "refine_spec f v ds r = Some rs" and out: "out = r # rs"
    by (auto split: option.splits)
  show ?case
  proof (cases i)
    case 0
    with r out show ?thesis by simp
  next
    case (Suc j)
    with Cons.prems(2) out have j: "j < length rs" by simp
    from Cons.IH [OF rs j] Suc out show ?thesis
      by (cases j) simp_all
  qed
qed

lemma accuracy_vector_short:
  "length ds < 2 ^ 32 \<Longrightarrow> accuracy_vector f v ds g = refine_spec f v ds g"
  by (simp add: accuracy_vector_refine)

subsection \<open>\<open>accuracy_vector\<close> and the store\<close>



subsection \<open>Termination with a reference value that absorbs the subnormal numbers\<close>

lemma fdiv_finite:
  "n \<noteq> 0 \<Longrightarrow> fdiv f (Finite s m) (Finite False n) = round_fp f s (m / n)"
  by simp

text \<open>The position of a number of the format among the multiples of the smallest subnormal.\<close>

lemma float_position:
  assumes "is_float f (Finite s m)"
  shows "m = of_int \<lfloor>m / pow2 (qmin f)\<rfloor> * pow2 (qmin f)" and "0 \<le> m"
proof -
  have "m = of_int \<lfloor>m / pow2 (qmin f)\<rfloor> * pow2 (qmin f) \<and> 0 \<le> m"
  proof (cases "m = 0")
    case True
    then show ?thesis
      by simp
  next
    case False
    with assms have m: "0 < m" "round_mag f m = m"
      by (simp_all add: is_float_iff)
    then obtain K where K: "m = of_int K * pow2 (qmin f)"
      using float_multiple [of m f "qmin f"] qmin_le_quantum [of f m] by blast
    then have "m / pow2 (qmin f) = of_int K"
      by simp
    then have "\<lfloor>m / pow2 (qmin f)\<rfloor> = K"
      by simp
    with K m show ?thesis
      by simp
  qed
  then show "m = of_int \<lfloor>m / pow2 (qmin f)\<rfloor> * pow2 (qmin f)" and "0 \<le> m"
    by simp_all
qed

lemma float_position_less:
  assumes "is_float f (Finite s a)" "is_float f (Finite s b)" "a < b"
  shows "nat \<lfloor>a / pow2 (qmin f)\<rfloor> < nat \<lfloor>b / pow2 (qmin f)\<rfloor>"
proof -
  define A where "A = \<lfloor>a / pow2 (qmin f)\<rfloor>"
  define B where "B = \<lfloor>b / pow2 (qmin f)\<rfloor>"
  have a: "a = of_int A * pow2 (qmin f)" "0 \<le> a"
    using float_position [OF assms(1)] by (simp_all add: A_def)
  have b: "b = of_int B * pow2 (qmin f)"
    using float_position [OF assms(2)] by (simp_all add: B_def)
  have "of_int A * pow2 (qmin f) < of_int B * pow2 (qmin f)"
    using assms(3) a(1) b by simp
  then have "(of_int A :: rat) < of_int B"
    by (simp only: mult_less_cancel_right_pos pow2_pos)
  then have "A < B"
    by (simp only: of_int_less_iff)
  moreover have "0 \<le> a / pow2 (qmin f)"
    using a(2) by simp
  then have "0 \<le> A"
    by (simp add: A_def)
  ultimately have "nat A < nat B"
    by simp
  then show ?thesis
    by (simp only: A_def B_def)
qed

lemma round_fp_is_float:
  assumes "0 < r" "1 \<le> prec f" "round_fp f s r = Finite t m"
  shows "is_float f (Finite t m)"
proof -
  from assms(1,3) have m: "m = round_mag f r" "\<not> overflows f m"
    by (auto simp: round_fp_def Let_def split: if_splits)
  have "0 \<le> m"
    using assms(1) by (simp add: m(1) round_mag_nonneg)
  moreover have "round_mag f m = m"
    unfolding m(1) using assms(1,2) by (rule round_mag_idem)
  ultimately show ?thesis
    using m(2) by (auto simp: is_float_iff)
qed

lemma reaches_insignificant:
  assumes v: "valid_format f"
    and w: "pow2 (emin f + int (prec f) + 1) \<le> w" "round_mag f w = w" "\<not> overflows f w"
    and n: "1 < n" "round_mag f n = n"
  shows "is_float f (Finite s m) \<Longrightarrow>
    \<exists>k. \<not> fneq (fadd f (Finite t w) (guess_after f (Finite False n) (Finite s m) k))
            (Finite t w)"
proof (induction "nat \<lfloor>m / pow2 (qmin f)\<rfloor>" arbitrary: m rule: less_induct)
  case less
  note fl = less.prems
  note e = valid_format_exponents [OF v]
  have m0: "0 \<le> m"
    using fl by (rule float_position)
  show ?case
  proof (cases "m < pow2 (emin f)")
    case True
    have "fadd f (Finite t w) (Finite s m) = Finite t w"
      using w m0 True e(3) by (intro fadd_absorbs) simp_all
    then have "\<not> fneq (fadd f (Finite t w)
        (guess_after f (Finite False n) (Finite s m) 0)) (Finite t w)"
      by simp
    then show ?thesis
      by blast
  next
    case False
    then have normal: "pow2 (emin f) \<le> m"
      by simp
    then have mp: "0 < m"
      using pow2_pos [of "emin f"] by linarith
    with fl have m: "round_mag f m = m" "\<not> overflows f m"
      by (simp_all add: is_float_iff)
    define R where "R = round_mag f (m / n)"
    have Rm: "R < m"
      unfolding R_def using v normal m(1) n by (rule round_mag_divide_less)
    then have "R \<le> m"
      by simp
    with m(2) have "\<not> overflows f R"
      by (rule overflows_mono)
    then have step: "fdiv f (Finite s m) (Finite False n) = Finite s R"
      using n(1) mp by (simp add: round_fp_def R_def)
    have "round_fp f s (m / n) = Finite s R"
      using step n(1) by simp
    then have flR: "is_float f (Finite s R)"
      using mp n(1) e(3) by (intro round_fp_is_float [of "m / n" f s]) simp_all
    have "nat \<lfloor>R / pow2 (qmin f)\<rfloor> < nat \<lfloor>m / pow2 (qmin f)\<rfloor>"
      using flR fl Rm by (rule float_position_less)
    from less.hyps [OF this flR] obtain k
      where "\<not> fneq (fadd f (Finite t w)
          (guess_after f (Finite False n) (Finite s R) k)) (Finite t w)"
      by blast
    then have "\<not> fneq (fadd f (Finite t w)
        (guess_after f (Finite False n) (Finite s m) (Suc k))) (Finite t w)"
      by (simp only: guess_after_shift [symmetric] step simp_thms)
    then show ?thesis
      by blast
  qed
qed

lemma accuracy_loop_terminates:
  assumes v: "valid_format f"
    and w: "is_float f (Finite t w)" "pow2 (emin f + int (prec f) + 1) \<le> w"
    and d: "is_float f divisor" "fless (Finite False 1) divisor"
    and g: "is_float f (Finite s m)"
  shows "accuracy_loop f (Finite t w) divisor (Finite s m) \<noteq> None"
proof -
  note e = valid_format_exponents [OF v]
  have w0: "0 < w"
    using w(2) pow2_pos [of "emin f + int (prec f) + 1"] by linarith
  with w(1) have wf: "round_mag f w = w" "\<not> overflows f w"
    by (simp_all add: is_float_iff)
  have "\<exists>k. \<not> fneq (fadd f (Finite t w) (guess_after f divisor (Finite s m) k)) (Finite t w)"
  proof (cases divisor)
    case (Finite u n)
    with d(1) have n0: "0 \<le> n"
      by (auto simp: is_float_iff)
    with d(2) Finite have u: "u = False" and n1: "1 < n"
      by (auto simp: signed_def split: if_splits)
    with d(1) Finite have "round_mag f n = n"
      by (simp add: is_float_iff)
    with v w(2) wf n1 show ?thesis
      unfolding Finite u using g by (intro reaches_insignificant)
  next
    case (Infinity u)
    with d(2) have u: "u = False"
      by simp
    have "pow2 (emin f) > 0"
      by simp
    then have "fadd f (Finite t w) (Finite s 0) = Finite t w"
      using w(2) wf e(3) by (intro fadd_absorbs) simp_all
    then have "\<not> fneq (fadd f (Finite t w)
        (guess_after f divisor (Finite s m) (Suc 0))) (Finite t w)"
      by (simp add: Infinity u)
    then show ?thesis
      by blast
  next
    case NaN
    with d(2) show ?thesis
      by simp
  qed
  then show ?thesis
    by (simp add: accuracy_loop_None_iff)
qed

subsection \<open>The loop with the reference value 0\<close>

lemma never_insignificant_zero:
  assumes p: "1 \<le> prec f" and n: "1 < n" "n < 2"
  shows "0 < m \<Longrightarrow> round_mag f m = m \<Longrightarrow> \<not> overflows f m \<Longrightarrow>
    fneq (fadd f (Finite False 0) (guess_after f (Finite False n) (Finite s m) k))
      (Finite False 0)"
proof (induction k arbitrary: m)
  case 0
  then have "fadd f (Finite False 0) (Finite s m) = Finite s m"
    by (simp add: signed_def round_fp_float)
  with 0 show ?case
    by (simp add: signed_def)
next
  case (Suc k)
  define R where "R = round_mag f (m / n)"
  obtain K where K: "0 < K" "m = of_int K * pow2 (qmin f)"
    using float_multiple [of m f "qmin f"] Suc.prems qmin_le_quantum [of f m] by blast
  from K(1) have "(of_int 1 :: rat) \<le> of_int K"
    by simp
  then have "1 * pow2 (qmin f) \<le> of_int K * pow2 (qmin f)"
    by (intro mult_right_mono) simp_all
  then have mq: "pow2 (qmin f) \<le> m"
    using K(2) by simp
  have "m / 2 < m / n"
    using n Suc.prems(1) by (intro divide_strict_left_mono) simp_all
  with mq have "pow2 (qmin f) / 2 < m / n"
    by linarith
  then have R0: "0 < R"
    unfolding R_def using p by (rule round_mag_pos)
  have "m / n \<le> m"
    using n Suc.prems(1) by (simp add: field_simps)
  then have Rm: "R \<le> m"
    unfolding R_def using n Suc.prems by (intro round_mag_le_float) simp_all
  have Rid: "round_mag f R = R"
    unfolding R_def using n Suc.prems p by (intro round_mag_idem) simp_all
  have Ro: "\<not> overflows f R"
    using Suc.prems(3) Rm by (rule overflows_mono)
  then have step: "fdiv f (Finite s m) (Finite False n) = Finite s R"
    using n Suc.prems(1) by (simp add: round_fp_def R_def)
  have "fneq (fadd f (Finite False 0) (guess_after f (Finite False n) (Finite s R) k))
      (Finite False 0)"
    using R0 Rid Ro by (rule Suc.IH)
  then show ?case
    by (simp only: guess_after_shift [symmetric] step simp_thms)
qed

section \<open>The bounds of two formats\<close>

text \<open>
  \<open>accuracy_vector\<close> run in a narrower and in a wider format, on the same reference value,
  divisors and initial guess. The threshold of significance of the reference value is
  smaller in the wider format by the factor \<open>2^(difference of the precisions)\<close>; the last
  bound of each format is compared with its threshold.
\<close>

subsection \<open>Further facts about exponents and numbers of a format\<close>

lemma ilog2_ge:
  assumes "0 < r" "pow2 a \<le> r"
  shows "a \<le> ilog2 r"
proof -
  have "pow2 a < pow2 (ilog2 r + 1)"
    using assms(2) ilog2_bounds(2) [OF assms(1)] by (rule le_less_trans)
  then show ?thesis
    by simp
qed

lemma ilog2_less:
  assumes "0 < r" "r < pow2 a"
  shows "ilog2 r < a"
proof -
  have "pow2 (ilog2 r) < pow2 a"
    using ilog2_bounds(1) [OF assms(1)] assms(2) by (rule le_less_trans)
  then show ?thesis
    by simp
qed

lemma float_facts:
  assumes "is_float f (Finite s m)" "0 < m"
  shows "round_mag f m = m" and "\<not> overflows f m"
  using assms by (simp_all add: is_float_iff)

lemma zero_is_float: "is_float f (Finite s 0)"
  by (simp add: is_float_iff)

lemma pow2_is_float:
  assumes "qmin f \<le> j" "1 \<le> prec f"
  shows "round_mag f (pow2 j) = pow2 j"
proof -
  have "round_mag f (of_int 1 * pow2 j) = of_int 1 * pow2 j"
  proof (rule round_mag_multiple)
    show "0 < (1::int)"
      by simp
    show "of_int 1 \<le> pow2 (int (prec f))"
      using pow2_le [of 0 "int (prec f)"] by simp
    show "qmin f \<le> j" "1 \<le> prec f"
      by fact+
  qed
  then show ?thesis
    by simp
qed

subsection \<open>The threshold of significance\<close>

text \<open>
  For a positive reference value \<open>v\<close> in the normal range, a non-negative \<open>x\<close> is absorbed
  by \<open>v\<close> when it is below half the quantum of \<open>v\<close>, that is below
  \<open>2^(ilog2 v - prec)\<close>, and changes \<open>v\<close> when it is above.
\<close>

lemma normal_quantum:
  assumes "pow2 (emin f) \<le> r"
  shows "quantum f r = ilog2 r - (int (prec f) - 1)" and "0 < r"
proof -
  show r: "0 < r"
    using assms pow2_pos [of "emin f"] by linarith
  have "pow2 (emin f) < pow2 (ilog2 r + 1)"
    using assms ilog2_bounds(2) [OF r] by (rule le_less_trans)
  then have "emin f \<le> ilog2 r"
    by simp
  then show "quantum f r = ilog2 r - (int (prec f) - 1)"
    by (simp add: quantum_def qmin_def)
qed

text \<open>The relative error of rounding a number of the normal range is at most \<open>2^-prec\<close>.\<close>

lemma round_mag_relative:
  assumes "pow2 (emin f) \<le> r"
  shows "r * (1 - pow2 (- int (prec f))) \<le> round_mag f r"
proof -
  note nq = normal_quantum [OF assms]
  define q where "q = quantum f r"
  define x where "x = r / pow2 q"
  have "\<bar>of_int (rhe x) - x\<bar> \<le> 1 / 2"
    by (rule rhe_error)
  then have "x - 1 / 2 \<le> of_int (rhe x)"
    by linarith
  then have "(x - 1 / 2) * pow2 q \<le> of_int (rhe x) * pow2 q"
    by (intro mult_right_mono) simp_all
  moreover have "(x - 1 / 2) * pow2 q = r - pow2 q / 2"
    by (simp add: x_def algebra_simps)
  moreover have "of_int (rhe x) * pow2 q = round_mag f r"
    by (simp add: round_mag_def x_def q_def)
  ultimately have lo: "r - pow2 q / 2 \<le> round_mag f r"
    by simp
  have "q - 1 = ilog2 r + (- int (prec f))"
    by (simp add: q_def nq(1))
  then have "pow2 (q - 1) = pow2 (ilog2 r) * pow2 (- int (prec f))"
    by (simp only: pow2_add)
  also have "\<dots> \<le> r * pow2 (- int (prec f))"
    using ilog2_bounds(1) [OF nq(2)] by (intro mult_right_mono) simp_all
  finally have "pow2 q / 2 \<le> r * pow2 (- int (prec f))"
    by (simp only: pow2_pred)
  with lo show ?thesis
    by (simp add: algebra_simps)
qed

text \<open>A number \<open>v\<close> of the format and the next multiple of its quantum.\<close>

lemma float_successor:
  assumes v: "pow2 (emin f + int (prec f) + 1) \<le> v" "round_mag f v = v" and p: "1 \<le> prec f"
  shows "\<exists>V. v = of_int V * pow2 (quantum f v) \<and>
           v + pow2 (quantum f v) = of_int (V + 1) * pow2 (quantum f v)"
    and "v + pow2 (quantum f v) \<le> pow2 (ilog2 v + 1)"
    and "quantum f v = ilog2 v - (int (prec f) - 1)"
    and "0 < v"
proof -
  have "(0::rat) < pow2 (emin f)"
    by simp
  note lf = large_value_facts [OF v this p]
  define q where "q = quantum f v"
  define V where "V = rhe (v / pow2 q)"
  have vq: "v = of_int V * pow2 q"
    using lf(2) by (simp add: q_def V_def)
  have qE: "ilog2 v + 1 = q + int (prec f)"
    using lf(1) by (simp add: q_def)
  have succ: "of_int (V + 1) * pow2 q = v + pow2 q"
    by (simp add: vq algebra_simps)
  have "of_int V * pow2 q < pow2 (int (prec f)) * pow2 q"
    using ilog2_bounds(2) [OF lf(5)] by (simp add: qE pow2_add vq [symmetric] mult.commute)
  then have "of_int V < pow2 (int (prec f))"
    by (simp only: mult_less_cancel_right_pos pow2_pos)
  then have "(of_int V :: rat) < of_int (2 ^ prec f)"
    by (simp add: pow2_of_nat)
  then have "V < 2 ^ prec f"
    by (simp only: of_int_less_iff)
  then have "V + 1 \<le> 2 ^ prec f"
    by simp
  then have "(of_int (V + 1) :: rat) \<le> of_int (2 ^ prec f)"
    by (simp only: of_int_le_iff)
  then have "of_int (V + 1) \<le> pow2 (int (prec f))"
    by (simp add: pow2_of_nat)
  then have "of_int (V + 1) * pow2 q \<le> pow2 (int (prec f)) * pow2 q"
    by (intro mult_right_mono) simp_all
  moreover have "pow2 (int (prec f)) * pow2 q = pow2 (ilog2 v + 1)"
    by (simp only: qE) (simp add: pow2_add mult.commute)
  ultimately have "v + pow2 q \<le> pow2 (ilog2 v + 1)"
    using succ by simp
  then show "v + pow2 (quantum f v) \<le> pow2 (ilog2 v + 1)"
    by (simp only: q_def)
  show "\<exists>V. v = of_int V * pow2 (quantum f v) \<and>
      v + pow2 (quantum f v) = of_int (V + 1) * pow2 (quantum f v)"
    using vq succ unfolding q_def by metis
  show "quantum f v = ilog2 v - (int (prec f) - 1)"
    by (rule lf(1))
  show "0 < v"
    by (rule lf(5))
qed

lemma half_quantum:
  "quantum f v = ilog2 v - (int (prec f) - 1) \<Longrightarrow>
   pow2 (ilog2 v - int (prec f)) = pow2 (quantum f v) / 2"
proof -
  assume "quantum f v = ilog2 v - (int (prec f) - 1)"
  then have "ilog2 v - int (prec f) = quantum f v - 1"
    by simp
  then show ?thesis
    by (simp only: pow2_pred)
qed

lemma round_mag_absorbs_half:
  assumes v: "pow2 (emin f + int (prec f) + 1) \<le> v" "round_mag f v = v"
    and x: "0 \<le> x" "x < pow2 (ilog2 v - int (prec f))" and p: "1 \<le> prec f"
  shows "round_mag f (v + x) = v"
proof -
  note fs = float_successor [OF v p]
  define q where "q = quantum f v"
  obtain V where vq: "v = of_int V * pow2 q"
    using fs(1) unfolding q_def by blast
  have xq: "x < pow2 q / 2"
    using x(2) half_quantum [OF fs(3)] by (simp add: q_def)
  have "v + x < v + pow2 q"
    using xq pow2_pos [of q] by linarith
  also have "\<dots> \<le> pow2 (ilog2 v + 1)"
    using fs(2) by (simp only: q_def)
  finally have hi: "v + x < pow2 (ilog2 v + 1)" .
  have lo: "pow2 (ilog2 v) \<le> v + x"
    using ilog2_bounds(1) [OF fs(4)] x(1) by linarith
  have "ilog2 (v + x) = ilog2 v"
    using fs(4) x(1) lo hi by (intro ilog2_unique) simp_all
  then have qq: "quantum f (v + x) = q"
    by (simp add: quantum_def q_def)
  define y where "y = x / pow2 q"
  have "y * pow2 q < (1 / 2) * pow2 q"
    using xq by (simp add: y_def)
  then have "y < 1 / 2"
    by (simp only: mult_less_cancel_right_pos pow2_pos)
  moreover have "0 \<le> y"
    using x(1) by (simp add: y_def)
  moreover have sc: "(v + x) / pow2 q = of_int V + y"
    by (simp add: vq add_divide_distrib y_def)
  ultimately have "\<bar>of_int V - (v + x) / pow2 q\<bar> < 1 / 2"
    by simp
  then have "rhe ((v + x) / pow2 q) = V"
    by (rule rhe_near)
  then have "round_mag f (v + x) = of_int V * pow2 q"
    by (simp add: round_mag_def qq)
  then show ?thesis
    by (simp only: vq [symmetric])
qed

lemma round_mag_significant:
  assumes v: "pow2 (emin f + int (prec f) + 1) \<le> v" "round_mag f v = v"
    and x: "pow2 (ilog2 v - int (prec f)) < x" and p: "1 \<le> prec f"
  shows "round_mag f (v + x) \<noteq> v"
proof
  assume eq: "round_mag f (v + x) = v"
  note fs = float_successor [OF v p]
  define q where "q = quantum f v"
  define y where "y = v + x"
  obtain V where vq: "v + pow2 q = of_int (V + 1) * pow2 q"
    using fs(1) unfolding q_def by blast
  have xq: "pow2 q / 2 < x"
    using x half_quantum [OF fs(3)] by (simp add: q_def)
  then have x0: "0 < x"
    using pow2_pos [of q] by linarith
  have y0: "0 < y"
    using fs(4) x0 by (simp add: y_def)
  have lo: "pow2 (ilog2 v) \<le> y"
    using ilog2_bounds(1) [OF fs(4)] x0 by (simp add: y_def)
  have dist: "\<bar>round_mag f y - y\<bar> = x"
    using x0 eq by (simp add: y_def)
  show False
  proof (cases "y < pow2 (ilog2 v + 1)")
    case True
    have "ilog2 y = ilog2 v"
      using y0 lo True by (intro ilog2_unique)
    then have qq: "quantum f y = q"
      by (simp add: quantum_def q_def)
    have "\<bar>round_mag f y - y\<bar> \<le> \<bar>of_int (V + 1) * pow2 (quantum f y) - y\<bar>"
      by (rule round_mag_nearest)
    then have "x \<le> \<bar>(v + pow2 q) - y\<bar>"
      by (simp only: dist qq vq)
    then have "x \<le> \<bar>pow2 q - x\<bar>"
      by (simp add: y_def)
    with xq x0 show False
      using pow2_pos [of q] by linarith
  next
    case False
    then have big: "pow2 (ilog2 v + 1) \<le> y"
      by simp
    have "pow2 (ilog2 v + 1) < pow2 (ilog2 y + 1)"
      using big ilog2_bounds(2) [OF y0] by (rule le_less_trans)
    then have E: "ilog2 v + 1 \<le> ilog2 y"
      by simp
    have "pow2 (emin f + int (prec f) + 1) \<le> pow2 (ilog2 v + 1)"
      using v(1) ilog2_bounds(2) [OF fs(4)] by linarith
    then have "emin f \<le> ilog2 y"
      using E by simp
    then have qy: "quantum f y = ilog2 y - (int (prec f) - 1)"
      by (simp add: quantum_def qmin_def)
    have pp: "pow2 (int (prec f) - 1) = of_int (2 ^ nat (int (prec f) - 1))"
      using p by (intro pow2_of_int) simp
    have "ilog2 y = (int (prec f) - 1) + quantum f y"
      by (simp add: qy)
    then have "pow2 (ilog2 y) = pow2 (int (prec f) - 1) * pow2 (quantum f y)"
      by (simp only: pow2_add)
    then have py: "pow2 (ilog2 y) = of_int (2 ^ nat (int (prec f) - 1)) * pow2 (quantum f y)"
      by (simp only: pp)
    have "\<bar>round_mag f y - y\<bar> \<le>
        \<bar>of_int (2 ^ nat (int (prec f) - 1)) * pow2 (quantum f y) - y\<bar>"
      by (rule round_mag_nearest)
    then have "x \<le> \<bar>pow2 (ilog2 y) - y\<bar>"
      by (simp only: dist py)
    moreover have "pow2 (ilog2 y) \<le> y"
      using y0 by (rule ilog2_bounds)
    ultimately have "x \<le> y - pow2 (ilog2 y)"
      by simp
    then have "pow2 (ilog2 y) \<le> v"
      by (simp add: y_def)
    moreover have "pow2 (ilog2 v + 1) \<le> pow2 (ilog2 y)"
      using E by (intro pow2_le)
    ultimately show False
      using ilog2_bounds(2) [OF fs(4)] by linarith
  qed
qed

lemma fadd_positive:
  "0 < v \<Longrightarrow> 0 \<le> x \<Longrightarrow>
   fadd f (Finite False v) (Finite False x) = round_fp f False (v + x)"
  by (simp add: signed_def)

subsection \<open>The threshold of significance of a negative reference value\<close>

text \<open>
  Below a number \<open>v\<close> that is not a power of two the numbers of the format have the
  spacing of those above it, and the threshold is the same, \<open>2^(ilog2 v - prec)\<close>. Below a
  power of two the spacing is halved, and so is the threshold.
\<close>

lemma round_mag_nearest_multiple:
  assumes "quantum f r \<le> j"
  shows "\<bar>round_mag f r - r\<bar> \<le> \<bar>of_int n * pow2 j - r\<bar>"
proof -
  define d where "d = j - quantum f r"
  have "j = d + quantum f r"
    by (simp add: d_def)
  then have "pow2 j = pow2 d * pow2 (quantum f r)"
    by (simp only: pow2_add)
  also have "pow2 d = of_int (2 ^ nat d)"
    using assms by (intro pow2_of_int) (simp add: d_def)
  finally have "of_int n * pow2 j = of_int (n * 2 ^ nat d) * pow2 (quantum f r)"
    by simp
  then show ?thesis
    by (simp only: round_mag_nearest)
qed

lemma round_mag_absorbs_minus_half:
  assumes v: "pow2 (emin f + int (prec f) + 1) \<le> v" "round_mag f v = v"
    and np: "pow2 (ilog2 v) < v"
    and x: "0 \<le> x" "x < pow2 (ilog2 v - int (prec f))" and p: "1 \<le> prec f"
  shows "round_mag f (v - x) = v"
proof -
  note fs = float_successor [OF v p]
  define q where "q = quantum f v"
  define E where "E = ilog2 v"
  obtain V where vq: "v = of_int V * pow2 q"
    using fs(1) unfolding q_def by blast
  have xq: "x < pow2 q / 2"
    using x(2) half_quantum [OF fs(3)] by (simp add: q_def)
  define P where "P = (2::int) ^ nat (int (prec f) - 1)"
  have "E = (int (prec f) - 1) + q"
    using fs(3) by (simp add: q_def E_def)
  then have "pow2 E = pow2 (int (prec f) - 1) * pow2 q"
    by (simp only: pow2_add)
  also have "pow2 (int (prec f) - 1) = of_int P"
    unfolding P_def using p by (intro pow2_of_int) simp
  finally have pE: "pow2 E = of_int P * pow2 q" .
  have "of_int P * pow2 q < of_int V * pow2 q"
    using np by (simp only: pE [symmetric] vq [symmetric] E_def)
  then have "(of_int P :: rat) < of_int V"
    by (simp only: mult_less_cancel_right_pos pow2_pos)
  then have "P + 1 \<le> V"
    by simp
  then have "(of_int (P + 1) :: rat) \<le> of_int V"
    by (simp only: of_int_le_iff)
  then have "of_int (P + 1) * pow2 q \<le> of_int V * pow2 q"
    by (intro mult_right_mono) simp_all
  moreover have "of_int (P + 1) * pow2 q = pow2 E + pow2 q"
    by (simp add: pE algebra_simps)
  ultimately have "pow2 E + pow2 q \<le> v"
    by (simp only: vq [symmetric])
  with xq have lo: "pow2 E \<le> v - x"
    using pow2_pos [of q] by linarith
  have hi: "v - x < pow2 (E + 1)"
    using ilog2_bounds(2) [OF fs(4)] x(1) by (simp add: E_def)
  have "0 < v - x"
    using lo pow2_pos [of E] by linarith
  then have "ilog2 (v - x) = E"
    using lo hi by (intro ilog2_unique)
  then have qq: "quantum f (v - x) = q"
    by (simp add: quantum_def q_def E_def)
  define y where "y = x / pow2 q"
  have "y * pow2 q < (1 / 2) * pow2 q"
    using xq by (simp add: y_def)
  then have "y < 1 / 2"
    by (simp only: mult_less_cancel_right_pos pow2_pos)
  moreover have "0 \<le> y"
    using x(1) by (simp add: y_def)
  moreover have sc: "(v - x) / pow2 q = of_int V - y"
    by (simp add: vq diff_divide_distrib y_def)
  ultimately have "\<bar>of_int V - (v - x) / pow2 q\<bar> < 1 / 2"
    by simp
  then have "rhe ((v - x) / pow2 q) = V"
    by (rule rhe_near)
  then have "round_mag f (v - x) = of_int V * pow2 q"
    by (simp add: round_mag_def qq)
  then show ?thesis
    by (simp only: vq [symmetric])
qed

text \<open>Facts about a power of two \<open>v\<close> and the numbers below it.\<close>

lemma below_power_of_two:
  assumes v: "pow2 (emin f + int (prec f) + 1) \<le> v" and pw: "v = pow2 (ilog2 v)"
    and x: "0 < x" "x < v" and p: "1 \<le> prec f"
  shows "quantum f (v - x) \<le> ilog2 v - int (prec f)"
    and "v = of_int (2 ^ prec f) * pow2 (ilog2 v - int (prec f))"
    and "pow2 (ilog2 v - 1) \<le> v - x \<Longrightarrow> quantum f (v - x) = ilog2 v - int (prec f)"
proof -
  define E where "E = ilog2 v"
  have v0: "0 < v"
    using x by simp
  have veq: "v = pow2 E"
    using pw by (simp add: E_def)
  have large: "emin f + int (prec f) + 1 \<le> E"
    unfolding E_def using v0 v by (rule ilog2_ge)
  have y0: "0 < v - x"
    using x by simp
  have "v - x < pow2 E"
    using x(1) veq by simp
  with y0 have il: "ilog2 (v - x) < E"
    by (rule ilog2_less)
  then have "quantum f (v - x) \<le> E - int (prec f)"
    using large by (simp add: quantum_def qmin_def)
  then show "quantum f (v - x) \<le> ilog2 v - int (prec f)"
    by (simp only: E_def)
  have "pow2 (int (prec f) + (E - int (prec f))) = pow2 (int (prec f)) * pow2 (E - int (prec f))"
    by (rule pow2_add)
  then have "pow2 E = pow2 (int (prec f)) * pow2 (E - int (prec f))"
    by simp
  also have "pow2 (int (prec f)) = of_int (2 ^ prec f)"
    by (simp add: pow2_of_nat)
  finally have "v = of_int (2 ^ prec f) * pow2 (E - int (prec f))"
    by (simp only: veq)
  then show "v = of_int (2 ^ prec f) * pow2 (ilog2 v - int (prec f))"
    by (simp only: E_def)
  show "quantum f (v - x) = ilog2 v - int (prec f)" if "pow2 (ilog2 v - 1) \<le> v - x"
  proof -
    have "E - 1 \<le> ilog2 (v - x)"
      using y0 that unfolding E_def by (rule ilog2_ge)
    with il have "ilog2 (v - x) = E - 1"
      by simp
    then have "quantum f (v - x) = E - int (prec f)"
      using large by (simp add: quantum_def qmin_def)
    then show ?thesis
      by (simp only: E_def)
  qed
qed

lemma round_mag_absorbs_minus_quarter:
  assumes v: "pow2 (emin f + int (prec f) + 1) \<le> v" and pw: "v = pow2 (ilog2 v)"
    and x: "0 < x" "x < pow2 (ilog2 v - int (prec f) - 1)" and p: "1 \<le> prec f"
  shows "round_mag f (v - x) = v"
proof -
  define r where "r = ilog2 v - int (prec f)"
  have half: "pow2 (r - 1) = pow2 r / 2"
    by (rule pow2_pred)
  have xr: "x < pow2 r / 2"
    using x(2) half by (simp add: r_def)
  have "pow2 (ilog2 v - int (prec f) - 1) \<le> pow2 (ilog2 v - 1)"
    by (intro pow2_le) simp
  with x(2) have x2: "x < pow2 (ilog2 v - 1)"
    by (rule less_le_trans)
  have "pow2 (ilog2 v - 1) = pow2 (ilog2 v) / 2"
    by (rule pow2_pred)
  then have vhalf: "pow2 (ilog2 v - 1) = v / 2"
    using pw by simp
  with x2 have xv: "x < v" and lo: "pow2 (ilog2 v - 1) \<le> v - x"
    using x(1) by simp_all
  note bp = below_power_of_two [OF v pw x(1) xv p]
  have qq: "quantum f (v - x) = r"
    unfolding r_def using lo by (rule bp(3))
  have vr: "v = of_int (2 ^ prec f) * pow2 r"
    unfolding r_def by (rule bp(2))
  define y where "y = x / pow2 r"
  have "y * pow2 r < (1 / 2) * pow2 r"
    using xr by (simp add: y_def)
  then have "y < 1 / 2"
    by (simp only: mult_less_cancel_right_pos pow2_pos)
  moreover have "0 \<le> y"
    using x(1) by (simp add: y_def)
  moreover have "(v - x) / pow2 r = of_int (2 ^ prec f) - y"
    using vr by (simp add: diff_divide_distrib y_def)
  ultimately have "\<bar>of_int (2 ^ prec f) - (v - x) / pow2 r\<bar> < 1 / 2"
    by simp
  then have "rhe ((v - x) / pow2 r) = 2 ^ prec f"
    by (rule rhe_near)
  then have "round_mag f (v - x) = of_int (2 ^ prec f) * pow2 r"
    by (simp add: round_mag_def qq)
  then show ?thesis
    by (simp only: vr [symmetric])
qed

lemma round_mag_significant_minus:
  assumes v: "pow2 (emin f + int (prec f) + 1) \<le> v" "round_mag f v = v"
    and x: "pow2 (ilog2 v - int (prec f)) < x" "x < v" and p: "1 \<le> prec f"
  shows "round_mag f (v - x) \<noteq> v"
proof
  assume eq: "round_mag f (v - x) = v"
  note fs = float_successor [OF v p]
  define q where "q = quantum f v"
  define y where "y = v - x"
  obtain V where vq: "v = of_int V * pow2 q"
    using fs(1) unfolding q_def by blast
  have xq: "pow2 q / 2 < x"
    using x(1) half_quantum [OF fs(3)] by (simp add: q_def)
  then have x0: "0 < x"
    using pow2_pos [of q] by linarith
  have y0: "0 < y" and yv: "y \<le> v"
    using x(2) x0 by (simp_all add: y_def)
  have "quantum f y \<le> q"
    unfolding q_def using y0 yv by (rule quantum_mono)
  then have "\<bar>round_mag f y - y\<bar> \<le> \<bar>of_int (V - 1) * pow2 q - y\<bar>"
    by (rule round_mag_nearest_multiple)
  moreover have "of_int (V - 1) * pow2 q = v - pow2 q"
    by (simp add: vq algebra_simps)
  moreover have "\<bar>round_mag f y - y\<bar> = x"
    using x0 eq by (simp add: y_def)
  ultimately have "x \<le> \<bar>v - pow2 q - y\<bar>"
    by simp
  then have "x \<le> \<bar>x - pow2 q\<bar>"
    by (simp add: y_def)
  with xq x0 show False
    using pow2_pos [of q] by linarith
qed

lemma round_mag_significant_minus_quarter:
  assumes v: "pow2 (emin f + int (prec f) + 1) \<le> v" and pw: "v = pow2 (ilog2 v)"
    and x: "pow2 (ilog2 v - int (prec f) - 1) < x" "x < v" and p: "1 \<le> prec f"
  shows "round_mag f (v - x) \<noteq> v"
proof
  assume eq: "round_mag f (v - x) = v"
  define r where "r = ilog2 v - int (prec f)"
  define y where "y = v - x"
  have half: "pow2 (r - 1) = pow2 r / 2"
    by (rule pow2_pred)
  have xr: "pow2 r / 2 < x"
    using x(1) half by (simp add: r_def)
  then have x0: "0 < x"
    using pow2_pos [of r] by linarith
  note bp = below_power_of_two [OF v pw x0 x(2) p]
  have vr: "v = of_int (2 ^ prec f) * pow2 r"
    unfolding r_def by (rule bp(2))
  have "quantum f y \<le> r"
    unfolding r_def y_def by (rule bp(1))
  then have "\<bar>round_mag f y - y\<bar> \<le> \<bar>of_int (2 ^ prec f - 1) * pow2 r - y\<bar>"
    by (rule round_mag_nearest_multiple)
  moreover have "of_int (2 ^ prec f - 1) * pow2 r = v - pow2 r"
    using vr by (simp add: algebra_simps)
  moreover have "\<bar>round_mag f y - y\<bar> = x"
    using x0 eq by (simp add: y_def)
  ultimately have "x \<le> \<bar>v - pow2 r - y\<bar>"
    by simp
  then have "x \<le> \<bar>x - pow2 r\<bar>"
    by (simp add: y_def)
  with xr x0 show False
    using pow2_pos [of r] by linarith
qed

lemma fadd_negative:
  "0 \<le> x \<Longrightarrow> x < w \<Longrightarrow>
   fadd f (Finite True w) (Finite False x) = round_fp f True (w - x)"
  by (simp add: signed_def)

lemma fadd_crossing:
  assumes "0 < w" "w \<le> x"
  shows "fneq (fadd f (Finite True w) (Finite False x)) (Finite True w)"
proof (cases "x = w")
  case True
  then show ?thesis
    using assms(1) by (simp add: signed_def)
next
  case False
  with assms have wx: "w < x"
    by simp
  then have "fadd f (Finite True w) (Finite False x) = round_fp f False (x - w)"
    by (simp add: signed_def)
  moreover have "0 \<le> round_mag f (x - w)"
    using wx by (intro round_mag_nonneg) simp
  ultimately show ?thesis
    using assms(1) by (simp add: round_fp_def Let_def signed_def)
qed

text \<open>
  The threshold of a reference value of either sign: the exponent \<open>j\<close> is
  \<open>ilog2 w - prec\<close>, and one less for a negative power of two.
\<close>

lemma significance_threshold:
  assumes v: "pow2 (emin f + int (prec f) + 1) \<le> w" and fl: "is_float f (Finite t w)"
    and p: "1 \<le> prec f" and x: "0 \<le> x"
    and j: "j = ilog2 w - int (prec f) - (if t \<and> w = pow2 (ilog2 w) then 1 else 0)"
  shows "fneq (fadd f (Finite t w) (Finite False x)) (Finite t w) \<Longrightarrow> pow2 j \<le> x"
    and "\<not> fneq (fadd f (Finite t w) (Finite False x)) (Finite t w) \<Longrightarrow> x \<le> pow2 j"
proof -
  have w0: "0 < w"
    using v pow2_pos [of "emin f + int (prec f) + 1"] by linarith
  note wf = float_facts [OF fl w0]
  have jle: "pow2 j \<le> pow2 (ilog2 w - int (prec f))"
    by (intro pow2_le) (simp add: j)
  have "pow2 (ilog2 w - int (prec f)) < pow2 (ilog2 w)"
    using p by (intro pow2_less) simp
  also have "\<dots> \<le> w"
    using w0 by (rule ilog2_bounds)
  finally have "pow2 (ilog2 w - int (prec f)) < w" .
  with jle have jw: "pow2 j < w"
    by (rule le_less_trans)
  have absorbed: "\<not> fneq (fadd f (Finite t w) (Finite False x)) (Finite t w)" if lt: "x < pow2 j"
  proof (cases t)
    case False
    have "x < pow2 (ilog2 w - int (prec f))"
      using lt False by (simp add: j)
    with v wf(1) x have "round_mag f (w + x) = w"
      using p by (intro round_mag_absorbs_half)
    moreover have "w + x \<noteq> 0"
      using w0 x by simp
    ultimately have "round_fp f False (w + x) = Finite False w"
      using wf(2) by (simp add: round_fp_def)
    then show ?thesis
      using w0 x False by (simp only: fadd_positive) simp
  next
    case True
    have xw: "x < w"
      using lt jw by simp
    have "round_mag f (w - x) = w"
    proof (cases "x = 0")
      case True
      then show ?thesis
        using wf(1) by simp
    next
      case False
      with x have x0: "0 < x"
        by simp
      show ?thesis
      proof (cases "w = pow2 (ilog2 w)")
        case True
        with lt \<open>t\<close> have "x < pow2 (ilog2 w - int (prec f) - 1)"
          by (simp add: j)
        with v True x0 show ?thesis
          using p by (intro round_mag_absorbs_minus_quarter)
      next
        case False
        with ilog2_bounds(1) [OF w0] have np: "pow2 (ilog2 w) < w"
          by simp
        from lt False have "x < pow2 (ilog2 w - int (prec f))"
          by (simp add: j)
        with v wf(1) np x show ?thesis
          using p by (intro round_mag_absorbs_minus_half)
      qed
    qed
    moreover have "w - x \<noteq> 0"
      using xw by simp
    ultimately have "round_fp f True (w - x) = Finite True w"
      using wf(2) by (simp add: round_fp_def)
    then show ?thesis
      using x xw True by (simp only: fadd_negative) simp
  qed
  have significant: "fneq (fadd f (Finite t w) (Finite False x)) (Finite t w)" if gt: "pow2 j < x"
  proof (cases t)
    case False
    have "pow2 (ilog2 w - int (prec f)) < x"
      using gt False by (simp add: j)
    with v wf(1) have "round_mag f (w + x) \<noteq> w"
      using p by (intro round_mag_significant)
    moreover have "w + x \<noteq> 0"
      using w0 x by simp
    ultimately have "fneq (round_fp f False (w + x)) (Finite False w)"
      by (simp add: round_fp_def Let_def signed_def)
    then show ?thesis
      using w0 x False by (simp only: fadd_positive)
  next
    case True
    show ?thesis
    proof (cases "w \<le> x")
      case True
      with w0 show ?thesis
        using \<open>t\<close> by (simp only: fadd_crossing)
    next
      case False
      then have xw: "x < w"
        by simp
      have "round_mag f (w - x) \<noteq> w"
      proof (cases "w = pow2 (ilog2 w)")
        case True
        with gt \<open>t\<close> have "pow2 (ilog2 w - int (prec f) - 1) < x"
          by (simp add: j)
        with v True xw show ?thesis
          using p by (intro round_mag_significant_minus_quarter)
      next
        case False
        with gt have "pow2 (ilog2 w - int (prec f)) < x"
          by (simp add: j)
        with v wf(1) xw show ?thesis
          using p by (intro round_mag_significant_minus)
      qed
      moreover have "w - x \<noteq> 0"
        using xw by simp
      ultimately have "fneq (round_fp f True (w - x)) (Finite True w)"
        by (simp add: round_fp_def Let_def signed_def)
      then show ?thesis
        using x xw \<open>t\<close> by (simp only: fadd_negative)
    qed
  qed
  show "pow2 j \<le> x" if "fneq (fadd f (Finite t w) (Finite False x)) (Finite t w)"
    using that absorbed by (rule_tac ccontr) simp
  show "x \<le> pow2 j" if "\<not> fneq (fadd f (Finite t w) (Finite False x)) (Finite t w)"
    using that significant by (rule_tac ccontr) simp
qed

subsection \<open>The guesses of one call\<close>

text \<open>Dividing a non-negative number of the format by a divisor greater than one.\<close>

lemma fdiv_float:
  assumes p: "1 \<le> prec f" and n: "1 < n" and m: "is_float f (Finite False m)"
  shows "\<exists>r. fdiv f (Finite False m) (Finite False n) = Finite False r \<and>
           is_float f (Finite False r) \<and> (0 < m \<longrightarrow> r = round_mag f (m / n))"
proof (cases "m = 0")
  case True
  then show ?thesis
    using n by (simp add: round_fp_def zero_is_float)
next
  case False
  with float_position(2) [OF m] have m0: "0 < m"
    by simp
  note mf = float_facts [OF m m0]
  define R where "R = round_mag f (m / n)"
  have "m / n \<le> m"
    using n m0 by (simp add: field_simps)
  then have "R \<le> m"
    unfolding R_def using n m0 mf(1) by (intro round_mag_le_float) simp_all
  with mf(2) have "\<not> overflows f R"
    by (rule overflows_mono)
  then have step: "round_fp f False (m / n) = Finite False R"
    using n m0 by (simp add: round_fp_def R_def)
  then have "is_float f (Finite False R)"
    using m0 n p by (intro round_fp_is_float [of "m / n" f False]) simp_all
  with step show ?thesis
    using n by (simp add: R_def)
qed

lemma guess_after_float:
  assumes p: "1 \<le> prec f" and n: "1 < n" and m: "is_float f (Finite False m)"
  shows "\<exists>r. guess_after f (Finite False n) (Finite False m) j = Finite False r \<and>
           is_float f (Finite False r)"
proof (induction j)
  case 0
  show ?case
    using m by simp
next
  case (Suc j)
  then obtain a where a: "guess_after f (Finite False n) (Finite False m) j = Finite False a"
      "is_float f (Finite False a)"
    by blast
  from fdiv_float [OF p n a(2)] show ?case
    by (auto simp: a(1))
qed

text \<open>Multiplying a positive number of the format, bounded by a power of two.\<close>

lemma fmul_float:
  assumes p: "1 \<le> prec f" and x: "0 < a * b" "a * b \<le> pow2 j"
    and j: "qmin f \<le> j" "j \<le> emax f"
  shows "fmul f (Finite False a) (Finite False b) = Finite False (round_mag f (a * b)) \<and>
         is_float f (Finite False (round_mag f (a * b))) \<and> round_mag f (a * b) \<le> pow2 j"
proof -
  define x where "x = a * b"
  have x0: "0 < x" and xj: "x \<le> pow2 j"
    using x by (simp_all add: x_def)
  have B: "round_mag f (pow2 j) = pow2 j"
    using j(1) p by (rule pow2_is_float)
  have le: "round_mag f x \<le> pow2 j"
    using x0 xj B by (rule round_mag_le_float)
  have "pow2 j < pow2 (emax f + 1)"
    using j(2) by (intro pow2_less) simp
  with le have "round_mag f x < pow2 (emax f + 1)"
    by (rule le_less_trans)
  then have no: "\<not> overflows f (round_mag f x)"
    by (simp add: overflows_def)
  then have r: "round_fp f False x = Finite False (round_mag f x)"
    using x0 by (simp add: round_fp_def)
  then have "is_float f (Finite False (round_mag f x))"
    using x0 p by (intro round_fp_is_float [of x f False])
  with r le have "round_fp f False x = Finite False (round_mag f x) \<and>
      is_float f (Finite False (round_mag f x)) \<and> round_mag f x \<le> pow2 j"
    by simp
  then show ?thesis
    by (simp add: x_def)
qed

subsection \<open>An upper bound on the result of one call\<close>

text \<open>
  The guess that leaves the loop is not significant, so it is at most the threshold
  \<open>2^j\<close>; with a divisor of at most \<open>2^k\<close> the returned product is at most
  \<open>2^(j + k)\<close>, whatever the initial guess was.
\<close>

lemma bound_le:
  assumes v: "valid_format f"
    and w: "is_float f (Finite t w)" "pow2 (emin f + int (prec f) + 1) \<le> w"
    and j: "j = ilog2 w - int (prec f) - (if t \<and> w = pow2 (ilog2 w) then 1 else 0)"
    and n: "is_float f (Finite False n)" "1 < n" "n \<le> 2 ^ k" and k: "k \<le> prec f"
    and m: "is_float f (Finite False m)"
  shows "\<exists>r. accuracy_bound f (Finite t w) (Finite False n) (Finite False m) =
             Some (Finite False r) \<and>
           is_float f (Finite False r) \<and> r \<le> pow2 (j + int k)"
proof -
  note e = valid_format_exponents [OF v]
  have p: "1 \<le> prec f"
    using e(3) by simp
  have w0: "0 < w"
    using w(2) pow2_pos [of "emin f + int (prec f) + 1"] by linarith
  note wf = float_facts [OF w(1) w0]
  have E: "emin f + int (prec f) + 1 \<le> ilog2 w"
    using w0 w(2) by (rule ilog2_ge)
  have "w < pow2 (emax f + 1)"
    using wf(2) by (simp add: overflows_def)
  with w0 have "ilog2 w < emax f + 1"
    by (rule ilog2_less)
  then have Emax: "ilog2 w \<le> emax f"
    by simp
  have jr: "ilog2 w - int (prec f) - 1 \<le> j" "j \<le> ilog2 w - int (prec f)"
    by (simp_all add: j)
  have "fless (Finite False 1) (Finite False n)"
    using n(2) by (simp add: signed_def)
  with v w n(1) have "accuracy_loop f (Finite t w) (Finite False n) (Finite False m) \<noteq> None"
    using m by (intro accuracy_loop_terminates)
  then obtain eps where L: "accuracy_loop f (Finite t w) (Finite False n) (Finite False m) = Some eps"
    by blast
  from accuracy_loop_trace [OF L] obtain i
    where i: "eps = guess_after f (Finite False n) (Finite False m) i"
      "\<not> fneq (fadd f (Finite t w) eps) (Finite t w)"
    by blast
  from guess_after_float [OF p n(2) m, of i] obtain x
    where x: "eps = Finite False x" "is_float f (Finite False x)"
    unfolding i(1) by blast
  have x0: "0 \<le> x"
    using x(2) by (rule float_position)
  have xle: "x \<le> pow2 j"
    using i(2) unfolding x(1) by (rule significance_threshold(2) [OF w(2,1) p x0 j])
  have "x * n \<le> pow2 j * 2 ^ k"
    using xle n x0 by (intro mult_mono) simp_all
  also have "\<dots> = pow2 (j + int k)"
    by (simp add: pow2_add pow2_of_nat)
  finally have xn: "x * n \<le> pow2 (j + int k)" .
  show ?thesis
  proof (cases "x = 0")
    case True
    then have "accuracy_bound f (Finite t w) (Finite False n) (Finite False m) =
        Some (Finite False 0)"
      by (simp add: accuracy_bound_def L x(1) round_fp_def)
    then show ?thesis
      by (simp add: zero_is_float)
  next
    case False
    with x0 n(2) have "0 < x * n"
      by simp
    moreover have "qmin f \<le> j + int k"
      using E jr(1) p by (simp add: qmin_def)
    moreover have "j + int k \<le> emax f"
      using Emax jr(2) k by simp
    ultimately have "fmul f (Finite False x) (Finite False n) = Finite False (round_mag f (x * n)) \<and>
        is_float f (Finite False (round_mag f (x * n))) \<and>
        round_mag f (x * n) \<le> pow2 (j + int k)"
      using p xn by (intro fmul_float) simp_all
    then show ?thesis
      by (simp add: accuracy_bound_def L x(1))
  qed
qed

subsection \<open>A lower bound on the result of one call\<close>

text \<open>
  When the initial guess is above half the threshold, \<open>2^(j - 1)\<close>, so is the result.
  Either the loop body never runs, and the product is larger than the guess; or the second
  last guess is significant, hence at least \<open>2^j\<close>, and the quotient and the product lose
  at most a relative \<open>2^-prec\<close> each.
\<close>

lemma bound_gt:
  assumes v: "valid_format f"
    and w: "is_float f (Finite t w)" "pow2 (emin f + int (prec f) + 1) * 2 ^ k \<le> w"
      "w * 2 ^ k \<le> pow2 (emax f)"
    and j: "j = ilog2 w - int (prec f) - (if t \<and> w = pow2 (ilog2 w) then 1 else 0)"
    and n: "is_float f (Finite False n)" "1 < n" "n \<le> 2 ^ k"
    and m: "is_float f (Finite False m)" "pow2 (j - 1) < m"
  shows "\<exists>r. accuracy_bound f (Finite t w) (Finite False n) (Finite False m) =
             Some (Finite False r) \<and>
           is_float f (Finite False r) \<and> pow2 (j - 1) < r"
proof -
  note e = valid_format_exponents [OF v]
  have p: "1 \<le> prec f"
    using e(3) by simp
  have k1: "1 \<le> k"
  proof (rule ccontr)
    assume "\<not> 1 \<le> k"
    then have "k = 0"
      by simp
    with n(2,3) show False
      by simp
  qed
  have w0: "0 < w"
  proof -
    have "0 < pow2 (emin f + int (prec f) + 1) * 2 ^ k"
      by simp
    with w(2) show ?thesis
      by linarith
  qed
  note wf = float_facts [OF w(1) w0]
  define E where "E = ilog2 w"
  define A where "A = pow2 j"
  define H where "H = pow2 (j - 1)"
  define u where "u = pow2 (- int (prec f))"
  have wk: "pow2 (emin f + int (prec f) + 1 + int k) \<le> w"
    using w(2) by (simp add: pow2_add pow2_of_nat)
  have EK: "emin f + int (prec f) + 1 + int k \<le> E"
    unfolding E_def using w0 wk by (rule ilog2_ge)
  have "pow2 (emin f + int (prec f) + 1) \<le> pow2 (emin f + int (prec f) + 1 + int k)"
    by (intro pow2_le) simp
  with wk have large: "pow2 (emin f + int (prec f) + 1) \<le> w"
    by (rule order_trans [rotated])
  have "pow2 E * 2 ^ k \<le> w * 2 ^ k"
    using ilog2_bounds(1) [OF w0] by (intro mult_right_mono) (simp_all add: E_def)
  then have "pow2 E * 2 ^ k \<le> pow2 (emax f)"
    using w(3) by (rule order_trans)
  then have "pow2 (E + int k) \<le> pow2 (emax f)"
    by (simp add: pow2_add pow2_of_nat)
  then have Eup: "E + int k \<le> emax f"
    by simp
  have jr: "E - int (prec f) - 1 \<le> j" "j \<le> E - int (prec f)"
    by (simp_all add: j E_def)
  have AH: "H = A / 2"
    unfolding A_def H_def by (rule pow2_pred)
  have A0: "0 < A"
    by (simp add: A_def)
  have Hmin: "pow2 (emin f) \<le> H"
    unfolding H_def using EK jr(1) k1 by (intro pow2_le) simp
  have "pow2 (- int (prec f)) \<le> pow2 (- 2)"
    using e(3) by (intro pow2_le) simp
  also have "pow2 (- 2) = 1 / 4"
    by (simp add: pow2_def power_int_def power2_eq_square)
  finally have u34: "3 / 4 \<le> 1 - u"
    by (simp add: u_def)
  have "fless (Finite False 1) (Finite False n)"
    using n(2) by (simp add: signed_def)
  with v w(1) large n(1)
  have "accuracy_loop f (Finite t w) (Finite False n) (Finite False m) \<noteq> None"
    using m(1) by (intro accuracy_loop_terminates)
  then obtain eps where L: "accuracy_loop f (Finite t w) (Finite False n) (Finite False m) = Some eps"
    by blast
  from accuracy_loop_trace [OF L] obtain i
    where i: "eps = guess_after f (Finite False n) (Finite False m) i"
      "\<not> fneq (fadd f (Finite t w) eps) (Finite t w)"
      "\<forall>l<i. fneq (fadd f (Finite t w) (guess_after f (Finite False n) (Finite False m) l))
         (Finite t w)"
    by blast
  from guess_after_float [OF p n(2) m(1), of i] obtain x
    where x: "eps = Finite False x" "is_float f (Finite False x)"
    unfolding i(1) by blast
  have x0: "0 \<le> x"
    using x(2) by (rule float_position)
  have xle: "x \<le> A"
    unfolding A_def using i(2) unfolding x(1)
    by (rule significance_threshold(2) [OF large w(1) p x0 j])
  have nf: "round_mag f n = n"
    using n(1,2) by (simp add: is_float_iff)
  have main: "0 < x \<and> H < round_mag f (x * n)"
  proof (cases i)
    case 0
    then have xm: "x = m"
      using i(1) x(1) by simp
    have Hm: "H < m"
      using m(2) by (simp add: H_def)
    with Hmin have mmin: "pow2 (emin f) \<le> m"
      by linarith
    then have m0: "0 < m"
      using pow2_pos [of "emin f"] by linarith
    have "m < round_mag f (m * n)"
      using v mmin float_facts(1) [OF m(1) m0] n(2) nf by (rule round_mag_times_greater)
    with Hm m0 show ?thesis
      by (simp add: xm)
  next
    case (Suc l)
    from guess_after_float [OF p n(2) m(1), of l] obtain a
      where a: "guess_after f (Finite False n) (Finite False m) l = Finite False a"
        "is_float f (Finite False a)"
      by blast
    have a0: "0 \<le> a"
      using a(2) by (rule float_position)
    have "fneq (fadd f (Finite t w) (Finite False a)) (Finite t w)"
      using i(3) Suc a(1) by (metis lessI)
    then have Aa: "A \<le> a"
      unfolding A_def by (rule significance_threshold(1) [OF large w(1) p a0 j])
    with A0 have apos: "0 < a"
      by linarith
    have "eps = fdiv f (Finite False a) (Finite False n)"
      using i(1) Suc a(1) by simp
    with fdiv_float [OF p n(2) a(2)] apos have xa: "x = round_mag f (a / n)"
      by (simp add: x(1))
    have "pow2 (emin f) \<le> pow2 (j - int k)"
      using EK jr(1) by (intro pow2_le) simp
    also have "pow2 (j - int k) = A / 2 ^ k"
      by (simp add: A_def pow2_diff pow2_of_nat)
    also have "A / 2 ^ k \<le> a / n"
      using Aa A0 n by (intro frac_le) simp_all
    finally have qmin: "pow2 (emin f) \<le> a / n" .
    have "a / n * (1 - u) \<le> x"
      unfolding xa u_def using qmin by (rule round_mag_relative)
    then have "a / n * (1 - u) * n \<le> x * n"
      using n(2) by (intro mult_right_mono) simp_all
    moreover have "a / n * (1 - u) * n = a * (1 - u)"
      using n(2) by simp
    ultimately have xn1: "a * (1 - u) \<le> x * n"
      by simp
    have "A * (3 / 4) \<le> a * (1 - u)"
      using Aa u34 apos A0 by (intro mult_mono) simp_all
    then have xn2: "A * (3 / 4) \<le> x * n"
      using xn1 by (rule order_trans)
    have "H \<le> A * (3 / 4)"
      using A0 by (simp add: AH)
    with Hmin xn2 have "pow2 (emin f) \<le> x * n"
      by linarith
    then have "x * n * (1 - u) \<le> round_mag f (x * n)"
      unfolding u_def by (rule round_mag_relative)
    moreover have "A * (3 / 4) * (3 / 4) \<le> x * n * (1 - u)"
    proof (rule mult_mono)
      show "A * (3 / 4) \<le> x * n"
        by (rule xn2)
      show "3 / 4 \<le> 1 - u"
        by (rule u34)
      show "0 \<le> x * n"
        using xn2 A0 by simp
      show "(0::rat) \<le> 3 / 4"
        by simp
    qed
    ultimately have "A * (3 / 4) * (3 / 4) \<le> round_mag f (x * n)"
      by (rule order_trans [rotated])
    moreover have "H < A * (3 / 4) * (3 / 4)"
      using A0 by (simp add: AH)
    ultimately have "H < round_mag f (x * n)"
      by (rule less_le_trans [rotated])
    moreover have "0 < x"
    proof (rule ccontr)
      assume "\<not> 0 < x"
      with x0 have "x = 0"
        by simp
      with xn2 A0 show False
        by simp
    qed
    ultimately show ?thesis
      by simp
  qed
  have "x * n \<le> A * 2 ^ k"
    using xle n x0 by (intro mult_mono) simp_all
  also have "\<dots> = pow2 (j + int k)"
    by (simp add: A_def pow2_add pow2_of_nat)
  finally have xn: "x * n \<le> pow2 (j + int k)" .
  have "0 < x * n"
    using main n(2) by simp
  moreover have "qmin f \<le> j + int k"
    using EK jr(1) p by (simp add: qmin_def)
  moreover have "j + int k \<le> emax f"
    using Eup jr(2) by simp
  ultimately have "fmul f (Finite False x) (Finite False n) = Finite False (round_mag f (x * n)) \<and>
      is_float f (Finite False (round_mag f (x * n))) \<and>
      round_mag f (x * n) \<le> pow2 (j + int k)"
    using p xn by (intro fmul_float) simp_all
  with main show ?thesis
    by (simp add: accuracy_bound_def L x(1) H_def)
qed

subsection \<open>A narrower and a wider format\<close>

text \<open>Every number of a format is a number of a format with more precision and range.\<close>

lemma is_float_wider:
  assumes fg: "prec f \<le> prec g" "emax f \<le> emax g" and p: "1 \<le> prec f"
    and x: "is_float f x"
  shows "is_float g x"
proof (cases x)
  case (Finite s m)
  show ?thesis
  proof (cases "m = 0")
    case True
    then show ?thesis
      by (simp add: Finite zero_is_float)
  next
    case False
    have fl: "is_float f (Finite s m)"
      using x by (simp only: Finite)
    with False float_position(2) [OF fl] have m0: "0 < m"
      by simp
    note mf = float_facts [OF fl m0]
    define q where "q = quantum f m"
    define K where "K = rhe (m / pow2 q)"
    have mK: "m = of_int K * pow2 q"
      using mf(1) by (simp add: round_mag_def q_def K_def)
    have "0 < of_int K * pow2 q"
      using m0 by (simp only: mK [symmetric])
    then have "0 < (of_int K :: rat)"
      by (rule zero_less_mult_pos2) simp
    then have K0: "0 < K"
      by (simp only: of_int_0_less_iff)
    have "m / pow2 q < pow2 (int (prec f))"
      unfolding q_def using m0 by (rule scaled_less)
    moreover have "m / pow2 q = of_int K"
      using mK by simp
    ultimately have "of_int K < pow2 (int (prec f))"
      by simp
    also have "\<dots> \<le> pow2 (int (prec g))"
      using fg(1) by (intro pow2_le) simp
    finally have Kle: "of_int K \<le> pow2 (int (prec g))"
      by simp
    have "qmin g \<le> qmin f"
      using fg by (simp add: qmin_def emin_def)
    with qmin_le_quantum [of f m] have qg: "qmin g \<le> q"
      by (simp add: q_def)
    have pg: "1 \<le> prec g"
      using p fg(1) by simp
    have "round_mag g (of_int K * pow2 q) = of_int K * pow2 q"
      using K0 Kle qg pg by (rule round_mag_multiple)
    then have r: "round_mag g m = m"
      by (simp only: mK [symmetric])
    have "m < pow2 (emax f + 1)"
      using mf(2) by (simp add: overflows_def)
    also have "\<dots> \<le> pow2 (emax g + 1)"
      using fg(2) by (intro pow2_le) simp
    finally have "\<not> overflows g m"
      by (simp add: overflows_def)
    with r m0 show ?thesis
      by (simp add: Finite is_float_iff)
  qed
qed simp_all

text \<open>A divisor greater than one and not greater than \<open>b\<close> is a positive finite number.\<close>

lemma divisor_cases:
  assumes "is_float f d" "fless (Finite False 1) d" "\<not> fless (Finite False b) d"
  shows "\<exists>n. d = Finite False n \<and> 1 < n \<and> n \<le> b"
proof (cases d)
  case (Finite u n)
  with assms(1) have "0 \<le> n"
    using float_position(2) [of f u n] by simp
  with assms(2,3) Finite show ?thesis
    by (auto simp: signed_def split: if_splits)
next
  case (Infinity u)
  with assms(2,3) show ?thesis
    by simp
next
  case NaN
  with assms(2) show ?thesis
    by simp
qed

text \<open>The two bounds, for every stage of \<open>accuracy_vector\<close>.\<close>

lemma refine_spec_gt:
  assumes v: "valid_format f"
    and w: "is_float f (Finite t w)" "pow2 (emin f + int (prec f) + 1) * 2 ^ k \<le> w"
      "w * 2 ^ k \<le> pow2 (emax f)"
    and j: "j = ilog2 w - int (prec f) - (if t \<and> w = pow2 (ilog2 w) then 1 else 0)"
  shows "(\<forall>d\<in>set ds. is_float f d \<and> fless (Finite False 1) d \<and>
            \<not> fless (Finite False (2 ^ k)) d) \<Longrightarrow>
    is_float f (Finite False m) \<Longrightarrow> pow2 (j - 1) < m \<Longrightarrow>
    \<exists>out. refine_spec f (Finite t w) ds (Finite False m) = Some out \<and>
      (\<forall>x\<in>set out. \<exists>r. x = Finite False r \<and> pow2 (j - 1) < r)"
proof (induction ds arbitrary: m)
  case Nil
  show ?case
    by simp
next
  case (Cons d ds)
  from Cons.prems(1) have d: "is_float f d" "fless (Finite False 1) d"
      "\<not> fless (Finite False (2 ^ k)) d"
    by simp_all
  from divisor_cases [OF d] obtain n where n: "d = Finite False n" "1 < n" "n \<le> 2 ^ k"
    by blast
  have nf: "is_float f (Finite False n)"
    using d(1) by (simp only: n(1))
  from bound_gt [OF v w j nf n(2,3) Cons.prems(2,3)] obtain r
    where r: "accuracy_bound f (Finite t w) (Finite False n) (Finite False m) =
        Some (Finite False r)"
      "is_float f (Finite False r)" "pow2 (j - 1) < r"
    by blast
  have "\<forall>d\<in>set ds. is_float f d \<and> fless (Finite False 1) d \<and>
      \<not> fless (Finite False (2 ^ k)) d"
    using Cons.prems(1) by simp
  from Cons.IH [OF this r(2,3)] obtain out
    where out: "refine_spec f (Finite t w) ds (Finite False r) = Some out"
      "\<forall>x\<in>set out. \<exists>r. x = Finite False r \<and> pow2 (j - 1) < r"
    by blast
  have "refine_spec f (Finite t w) (d # ds) (Finite False m) = Some (Finite False r # out)"
    by (simp add: n(1) r(1) out(1))
  with r(3) out(2) show ?case
    by simp
qed

lemma refine_spec_le:
  assumes v: "valid_format f"
    and w: "is_float f (Finite t w)" "pow2 (emin f + int (prec f) + 1) \<le> w"
    and j: "j = ilog2 w - int (prec f) - (if t \<and> w = pow2 (ilog2 w) then 1 else 0)"
    and k: "k \<le> prec f"
  shows "(\<forall>d\<in>set ds. is_float f d \<and> fless (Finite False 1) d \<and>
            \<not> fless (Finite False (2 ^ k)) d) \<Longrightarrow>
    is_float f (Finite False m) \<Longrightarrow>
    \<exists>out. refine_spec f (Finite t w) ds (Finite False m) = Some out \<and>
      (\<forall>x\<in>set out. \<exists>r. x = Finite False r \<and> r \<le> pow2 (j + int k))"
proof (induction ds arbitrary: m)
  case Nil
  show ?case
    by simp
next
  case (Cons d ds)
  from Cons.prems(1) have d: "is_float f d" "fless (Finite False 1) d"
      "\<not> fless (Finite False (2 ^ k)) d"
    by simp_all
  from divisor_cases [OF d] obtain n where n: "d = Finite False n" "1 < n" "n \<le> 2 ^ k"
    by blast
  have nf: "is_float f (Finite False n)"
    using d(1) by (simp only: n(1))
  from bound_le [OF v w j nf n(2,3) k Cons.prems(2)] obtain r
    where r: "accuracy_bound f (Finite t w) (Finite False n) (Finite False m) =
        Some (Finite False r)"
      "is_float f (Finite False r)" "r \<le> pow2 (j + int k)"
    by blast
  have "\<forall>d\<in>set ds. is_float f d \<and> fless (Finite False 1) d \<and>
      \<not> fless (Finite False (2 ^ k)) d"
    using Cons.prems(1) by simp
  from Cons.IH [OF this r(2)] obtain out
    where out: "refine_spec f (Finite t w) ds (Finite False r) = Some out"
      "\<forall>x\<in>set out. \<exists>r. x = Finite False r \<and> r \<le> pow2 (j + int k)"
    by blast
  have "refine_spec f (Finite t w) (d # ds) (Finite False m) = Some (Finite False r # out)"
    by (simp add: n(1) r(1) out(1))
  with r(3) out(2) show ?case
    by simp
qed

lemma last_element_mem:
  "out \<noteq> [] \<Longrightarrow> \<exists>x. last_element out = Some x \<and> x \<in> set out"
  by (simp add: last_element_def)

section \<open>Evaluation on concrete inputs\<close>

text \<open>
  Rewrite rules that let the simplifier compute the arithmetic on numerals: floors and
  ceilings of fractions, powers of two, the bit length of a numeral, and the overflow test
  without the power \<open>2^(emax + 1)\<close>.
\<close>

lemma floor_rat_numeral: "\<lfloor>numeral a / numeral b :: rat\<rfloor> = numeral a div numeral b"
  by (metis floor_divide_of_int_eq of_int_numeral)

lemma floor_rat_one: "\<lfloor>1 / numeral b :: rat\<rfloor> = 1 div numeral b"
  by (metis floor_divide_of_int_eq of_int_numeral of_int_1)

lemma ceiling_rat_numeral:
  "\<lceil>numeral a / numeral b :: rat\<rceil> = - ((- numeral a) div numeral b)"
  unfolding ceiling_def
  by (metis floor_divide_of_int_eq of_int_numeral of_int_minus minus_divide_left)

lemma ceiling_rat_one: "\<lceil>1 / numeral b :: rat\<rceil> = - ((- 1) div numeral b)"
  unfolding ceiling_def
  by (metis floor_divide_of_int_eq of_int_numeral of_int_minus minus_divide_left of_int_1)

lemma pow2_numeral: "pow2 (numeral k) = 2 ^ numeral k"
  by (simp add: pow2_def)

lemma pow2_neg_numeral: "pow2 (- numeral k) = 1 / 2 ^ numeral k"
  by (simp add: pow2_def power_int_def field_simps)

lemma pow2_m1: "pow2 (- 1) = 1 / 2"
  by (simp add: pow2_def power_int_def)

lemma overflows_small: "m < 2 ^ 100 \<Longrightarrow> 127 \<le> emax f \<Longrightarrow> overflows f m = False"
proof -
  assume m: "m < 2 ^ 100" and e: "127 \<le> emax f"
  have "(2::rat) powi 100 \<le> 2 powi (emax f + 1)"
    using e by (intro power_int_increasing) auto
  then have "2 ^ 100 \<le> pow2 (emax f + 1)"
    by (simp add: pow2_def)
  with m show ?thesis
    by (simp add: overflows_def)
qed

lemma bitlen_Bit0: "bitlen (numeral (num.Bit0 n)) = bitlen (numeral n) + 1"
  by (subst compute_bitlen) simp

lemma bitlen_Bit1: "bitlen (numeral (num.Bit1 n)) = bitlen (numeral n) + 1"
  by (subst compute_bitlen) simp

lemma bitlen_One: "bitlen 1 = 1"
  by (subst compute_bitlen) simp

lemma Let_rat_numeral: "Let (numeral a / numeral b :: rat) g = g (numeral a / numeral b)"
  by simp

lemma Let_rat_one: "Let (1 / numeral b :: rat) g = g (1 / numeral b)"
  by simp

lemma Let_rat_neg_numeral:
  "Let (- (numeral a / numeral b) :: rat) g = g (- (numeral a / numeral b))"
  by simp

lemma Let_rat_neg_one: "Let (- (1 / numeral b) :: rat) g = g (- (1 / numeral b))"
  by simp

lemma round_mag_eval:
  "round_mag f r = (let q = quantum f r in of_int (rhe (r / pow2 q)) * pow2 q)"
  by (simp add: round_mag_def Let_def)

lemma guess_after_numeral:
  "guess_after f d g (numeral k) = fdiv f (guess_after f d g (pred_numeral k)) d"
  by (simp add: numeral_eq_Suc)

lemmas fp_eval =
  floor_rat_numeral floor_rat_one ceiling_rat_numeral ceiling_rat_one
  pow2_numeral pow2_neg_numeral pow2_m1 overflows_small
  ilog2_def rhe_def quantum_def round_mag_eval round_fp_def signed_def qmin_def emin_def
  binary32_def binary64_def x87_extended_def bitlen_Bit0 bitlen_Bit1 bitlen_One literal_def
  Let_rat_numeral Let_rat_one Let_rat_neg_numeral Let_rat_neg_one

lemma single_divisors_eval:
  "single_divisors =
     [Finite False 2, Finite False (9227469 / 8388608), Finite False (4236247 / 4194304),
      Finite False (8396997 / 8388608), Finite False (8389447 / 8388608),
      Finite False (2097173 / 2097152)]"
  by (simp add: single_divisors_def fp_eval)

lemma double_divisors_eval: "double_divisors = single_divisors"
  by (simp add: double_divisors_def single_divisors_eval fp_eval)

lemma extended_divisors_eval: "extended_divisors = single_divisors"
  by (simp add: extended_divisors_def single_divisors_eval fp_eval)

lemma single_stage_1:
  "accuracy_bound binary32 (Finite False 1) (Finite False 2) (Finite False 1) =
     Some (Finite False (1 / 8388608))"
  by (simp add: accuracy_bound_def accuracy_loop.simps fp_eval)

lemma single_stage_2:
  "accuracy_bound binary32 (Finite False 1) (Finite False (9227469 / 8388608)) (Finite False (1 / 8388608)) =
     Some (Finite False (8609363 / 140737488355328))"
  by (simp add: accuracy_bound_def accuracy_loop.simps fp_eval)

lemma single_stage_3:
  "accuracy_bound binary32 (Finite False 1) (Finite False (4236247 / 4194304)) (Finite False (8609363 / 140737488355328)) =
     Some (Finite False (8439725 / 140737488355328))"
  by (simp add: accuracy_bound_def accuracy_loop.simps fp_eval)

lemma single_stage_4:
  "accuracy_bound binary32 (Finite False 1) (Finite False (8396997 / 8388608)) (Finite False (8439725 / 140737488355328)) =
     Some (Finite False (8389261 / 140737488355328))"
  by (simp add: accuracy_bound_def accuracy_loop.simps fp_eval)

lemma single_stage_5:
  "accuracy_bound binary32 (Finite False 1) (Finite False (8389447 / 8388608)) (Finite False (8389261 / 140737488355328)) =
     Some (Finite False (8389261 / 140737488355328))"
  by (simp add: accuracy_bound_def accuracy_loop.simps fp_eval)

lemma single_stage_6:
  "accuracy_bound binary32 (Finite False 1) (Finite False (2097173 / 2097152)) (Finite False (8389261 / 140737488355328)) =
     Some (Finite False (8388673 / 140737488355328))"
  by (simp add: accuracy_bound_def accuracy_loop.simps fp_eval)

lemma single_vector:
  "accuracy_vector binary32 (Finite False 1) single_divisors (Finite False 1) =
     Some [Finite False (1 / 8388608),
           Finite False (8609363 / 140737488355328),
           Finite False (8439725 / 140737488355328),
           Finite False (8389261 / 140737488355328),
           Finite False (8389261 / 140737488355328),
           Finite False (8388673 / 140737488355328)]"
  by (simp add: accuracy_vector_short single_divisors_eval single_stage_1 single_stage_2 single_stage_3 single_stage_4 single_stage_5 single_stage_6)

lemma double_stage_1:
  "accuracy_bound binary64 (Finite False 1) (Finite False 2) (Finite False 1) =
     Some (Finite False (1 / 4503599627370496))"
  by (simp add: accuracy_bound_def accuracy_loop.simps fp_eval)

lemma double_stage_2:
  "accuracy_bound binary64 (Finite False 1) (Finite False (9227469 / 8388608)) (Finite False (1 / 4503599627370496)) =
     Some (Finite False (2311058359410047 / 20282409603651670423947251286016))"
  by (simp add: accuracy_bound_def accuracy_loop.simps fp_eval)

lemma double_stage_3:
  "accuracy_bound binary64 (Finite False 1) (Finite False (4236247 / 4194304)) (Finite False (2311058359410047 / 20282409603651670423947251286016)) =
     Some (Finite False (4531042844924131 / 40564819207303340847894502572032))"
  by (simp add: accuracy_bound_def accuracy_loop.simps fp_eval)

lemma double_stage_4:
  "accuracy_bound binary64 (Finite False 1) (Finite False (8396997 / 8388608)) (Finite False (4531042844924131 / 40564819207303340847894502572032)) =
     Some (Finite False (2251975112514213 / 20282409603651670423947251286016))"
  by (simp add: accuracy_bound_def accuracy_loop.simps fp_eval)

lemma double_stage_5:
  "accuracy_bound binary64 (Finite False 1) (Finite False (8389447 / 8388608)) (Finite False (2251975112514213 / 20282409603651670423947251286016)) =
     Some (Finite False (2251975112514213 / 20282409603651670423947251286016))"
  by (simp add: accuracy_bound_def accuracy_loop.simps fp_eval)

lemma double_stage_6:
  "accuracy_bound binary64 (Finite False 1) (Finite False (2097173 / 2097152)) (Finite False (2251975112514213 / 20282409603651670423947251286016)) =
     Some (Finite False (4503634533001963 / 40564819207303340847894502572032))"
  by (simp add: accuracy_bound_def accuracy_loop.simps fp_eval)

lemma double_vector:
  "accuracy_vector binary64 (Finite False 1) double_divisors (Finite False 1) =
     Some [Finite False (1 / 4503599627370496),
           Finite False (2311058359410047 / 20282409603651670423947251286016),
           Finite False (4531042844924131 / 40564819207303340847894502572032),
           Finite False (2251975112514213 / 20282409603651670423947251286016),
           Finite False (2251975112514213 / 20282409603651670423947251286016),
           Finite False (4503634533001963 / 40564819207303340847894502572032)]"
  by (simp add: accuracy_vector_short double_divisors_eval single_divisors_eval double_stage_1 double_stage_2 double_stage_3 double_stage_4 double_stage_5 double_stage_6)

lemma extended_stage_1:
  "accuracy_bound x87_extended (Finite False 1) (Finite False 2) (Finite False 1) =
     Some (Finite False (1 / 9223372036854775808))"
  by (simp add: accuracy_bound_def accuracy_loop.simps fp_eval)

lemma extended_stage_2:
  "accuracy_bound x87_extended (Finite False 1) (Finite False (9227469 / 8388608)) (Finite False (1 / 9223372036854775808)) =
     Some (Finite False (4733047520071775313 / 85070591730234615865843651857942052864))"
  by (simp add: accuracy_bound_def accuracy_loop.simps fp_eval)

lemma extended_stage_3:
  "accuracy_bound x87_extended (Finite False 1) (Finite False (4236247 / 4194304)) (Finite False (4733047520071775313 / 85070591730234615865843651857942052864)) =
     Some (Finite False (9279575746404616727 / 170141183460469231731687303715884105728))"
  by (simp add: accuracy_bound_def accuracy_loop.simps fp_eval)

lemma extended_stage_4:
  "accuracy_bound x87_extended (Finite False 1) (Finite False (8396997 / 8388608)) (Finite False (9279575746404616727 / 170141183460469231731687303715884105728)) =
     Some (Finite False (288252814401819165 / 5316911983139663491615228241121378304))"
  by (simp add: accuracy_bound_def accuracy_loop.simps fp_eval)

lemma extended_stage_5:
  "accuracy_bound x87_extended (Finite False 1) (Finite False (8389447 / 8388608)) (Finite False (288252814401819165 / 5316911983139663491615228241121378304)) =
     Some (Finite False (288252814401819165 / 5316911983139663491615228241121378304))"
  by (simp add: accuracy_bound_def accuracy_loop.simps fp_eval)

lemma extended_stage_6:
  "accuracy_bound x87_extended (Finite False 1) (Finite False (2097173 / 2097152)) (Finite False (288252814401819165 / 5316911983139663491615228241121378304)) =
     Some (Finite False (9223443523588014633 / 170141183460469231731687303715884105728))"
  by (simp add: accuracy_bound_def accuracy_loop.simps fp_eval)

lemma extended_vector:
  "accuracy_vector x87_extended (Finite False 1) extended_divisors (Finite False 1) =
     Some [Finite False (1 / 9223372036854775808),
           Finite False (4733047520071775313 / 85070591730234615865843651857942052864),
           Finite False (9279575746404616727 / 170141183460469231731687303715884105728),
           Finite False (288252814401819165 / 5316911983139663491615228241121378304),
           Finite False (288252814401819165 / 5316911983139663491615228241121378304),
           Finite False (9223443523588014633 / 170141183460469231731687303715884105728)]"
  by (simp add: accuracy_vector_short extended_divisors_eval single_divisors_eval extended_stage_1 extended_stage_2 extended_stage_3 extended_stage_4 extended_stage_5 extended_stage_6)

section \<open>The claims\<close>

subsection \<open>The stages of \<open>accuracy_vector\<close>\<close>

text \<open>
  Claim C4. When \<open>accuracy_vector\<close> returns, the element at every index \<open>i\<close> of its
  result is what \<open>accuracy_bound\<close> returns for the reference value, the divisor at index
  \<open>i\<close> and the guess of that stage: the initial guess for the first stage, the preceding
  element of the result for every later stage.
\<close>

theorem accuracy_vector_stage:
  assumes "accuracy_vector f value divisors initial_guess = Some out"
    and "i < length out"
  shows "accuracy_bound f value (divisors ! i)
           (if i = 0 then initial_guess else out ! (i - 1)) = Some (out ! i)"
proof -
  define n where "n = length divisors mod 2 ^ 32"
  have r: "refine_spec f value (take n divisors) initial_guess = Some out"
    using assms(1) by (simp add: accuracy_vector_refine n_def)
  then have "length out = length (take n divisors)"
    by (rule refine_spec_length)
  with assms(2) have "take n divisors ! i = divisors ! i"
    by simp
  with refine_spec_nth [OF r assms(2)] show ?thesis
    by simp
qed

theorem accuracy_vector_stage_witness:
  "accuracy_vector binary32 (Finite False 1) single_divisors (Finite False 1) =
     Some [Finite False (1 / 8388608), Finite False (8609363 / 140737488355328),
           Finite False (8439725 / 140737488355328), Finite False (8389261 / 140737488355328),
           Finite False (8389261 / 140737488355328), Finite False (8388673 / 140737488355328)] \<and>
   accuracy_bound binary32 (Finite False 1) (single_divisors ! 5)
     (Finite False (8389261 / 140737488355328)) = Some (Finite False (8388673 / 140737488355328))"
  using accuracy_vector_stage [OF single_vector, of 5] single_vector by simp

subsection \<open>The length of the result\<close>

text \<open>
  For a divisor list of fewer than \<open>2^32\<close> elements the result has the length of the list,
  and the empty list gives the empty result without a call of \<open>accuracy_bound\<close>.
\<close>

lemma accuracy_vector_length:
  "length divisors < 2 ^ 32 \<Longrightarrow> accuracy_vector f value divisors initial_guess = Some out \<Longrightarrow>
   length out = length divisors"
  by (simp add: accuracy_vector_short refine_spec_length)

lemma accuracy_vector_empty: "accuracy_vector f value [] initial_guess = Some []"
  by (simp add: accuracy_vector_short)

text \<open>
  Claim C5 says that the result of \<open>accuracy_vector\<close> has the length of the divisor list,
  for every divisor list. The length is stored in an \<open>unsigned\<close> variable, which keeps its
  low 32 bits: a divisor list of \<open>2^32\<close> elements gives an empty result.
\<close>

theorem accuracy_vector_truncates_size:
  "length (replicate (2 ^ 32) (Finite False 2)) = 2 ^ 32 \<and>
   accuracy_vector binary32 (Finite False 1) (replicate (2 ^ 32) (Finite False 2))
     (Finite False 1) = Some []"
  by (simp add: accuracy_vector_refine)

subsection \<open>The divisor lists of \<open>main\<close>\<close>

text \<open>
  Claim C8. The \<open>double\<close> and \<open>long double\<close> divisor lists of \<open>main\<close> hold the same six
  numbers as the \<open>float\<close> list: the conversion of each \<open>float\<close> divisor is exact.
\<close>

theorem divisor_lists_equal:
  "double_divisors = single_divisors \<and> extended_divisors = single_divisors \<and>
   single_divisors =
     [Finite False 2, Finite False (9227469 / 8388608), Finite False (4236247 / 4194304),
      Finite False (8396997 / 8388608), Finite False (8389447 / 8388608),
      Finite False (2097173 / 2097152)]"
  using double_divisors_eval extended_divisors_eval single_divisors_eval by simp

subsection \<open>An initial guess that is not significant\<close>

text \<open>
  Claim C9, amended. When \<open>value + initial_guess == value\<close> holds at entry,
  \<open>accuracy_bound\<close> leaves the loop before the first division, with \<open>epsilon\<close> still the
  initial guess, and returns \<open>initial_guess * divisor\<close>. The product is larger than the
  initial guess when the initial guess is a positive normal number and the divisor is
  greater than one.
\<close>

theorem insignificant_guess_returns_product:
  assumes "\<not> fneq (fadd f value initial_guess) value"
  shows "accuracy_loop f value divisor initial_guess =
           Some (guess_after f divisor initial_guess 0) \<and>
         accuracy_bound f value divisor initial_guess = Some (fmul f initial_guess divisor) \<and>
         (valid_format f \<and> initial_guess = Finite False m \<and> pow2 (emin f) \<le> m \<and>
          is_float f initial_guess \<and> is_float f divisor \<and> fless (Finite False 1) divisor \<longrightarrow>
          fless initial_guess (fmul f initial_guess divisor))"
  using assms by (auto simp: accuracy_bound_def accuracy_loop_exit intro: fmul_greater)

theorem insignificant_guess_returns_product_witness:
  "\<not> fneq (fadd binary32 (Finite False 1) (Finite False (pow2 (- 30)))) (Finite False 1) \<and>
   valid_format binary32 \<and> pow2 (emin binary32) \<le> pow2 (- 30) \<and>
   is_float binary32 (Finite False (pow2 (- 30))) \<and> is_float binary32 (Finite False 2) \<and>
   fless (Finite False 1) (Finite False 2) \<and>
   accuracy_bound binary32 (Finite False 1) (Finite False 2) (Finite False (pow2 (- 30))) =
     Some (Finite False (pow2 (- 29))) \<and>
   fless (Finite False (pow2 (- 30))) (Finite False (pow2 (- 29)))"
  using insignificant_guess_returns_product
    [of binary32 "Finite False 1" "Finite False (pow2 (- 30))" "Finite False 2" "pow2 (- 30)"]
  by (simp add: fp_eval valid_format_def is_float.simps)

text \<open>
  Claim C9 as stated says that the returned product is larger than the initial guess for
  every such call. With the initial guess zero it is zero again.
\<close>

theorem zero_guess_not_larger:
  "\<not> fneq (fadd binary32 (Finite False 1) (Finite False 0)) (Finite False 1) \<and>
   accuracy_bound binary32 (Finite False 1) (Finite False 2) (Finite False 0) =
     Some (Finite False 0) \<and>
   \<not> fless (Finite False 0) (Finite False 0)"
  by (simp add: accuracy_bound_def accuracy_loop.simps fp_eval)

subsection \<open>Termination of \<open>accuracy_bound\<close>\<close>

text \<open>
  Claim C2 as stated: the loop terminates for every value and every initial guess when the
  divisor is greater than one. With the reference value 0, the \<open>float\<close> divisor 1.1 of
  \<open>main\<close> and the initial guess 1 it does not: every guess is a positive number, the
  quotient of the smallest subnormal number by a divisor below 2 rounds to that number again,
  and \<open>0 + epsilon\<close> differs from 0 for every positive \<open>epsilon\<close>.
\<close>

theorem loop_never_exits_at_zero:
  "is_float binary32 (Finite False (9227469 / 8388608)) \<and>
   fless (Finite False 1) (Finite False (9227469 / 8388608)) \<and>
   accuracy_bound binary32 (Finite False 0) (Finite False (9227469 / 8388608)) (Finite False 1) =
     None"
proof -
  have v: "valid_format binary32"
    by (simp add: valid_format_def binary32_def)
  have "fneq (fadd binary32 (Finite False 0)
      (guess_after binary32 (Finite False (9227469 / 8388608)) (Finite False 1) k))
      (Finite False 0)" for k
    using round_mag_one [OF v] not_overflows_one [OF v]
    by (intro never_insignificant_zero) (simp_all add: binary32_def)
  then have "accuracy_loop binary32 (Finite False 0) (Finite False (9227469 / 8388608))
      (Finite False 1) = None"
    by (simp add: accuracy_loop_None_iff)
  then show ?thesis
    by (simp add: accuracy_bound_def is_float.simps fp_eval)
qed

text \<open>
  Claim C2, amended. In a format with at least two significand bits and \<open>emax \<ge> prec + 2\<close>
  (\<open>float\<close>, \<open>double\<close> and \<open>long double\<close> are such formats), for every finite reference
  value of magnitude at least \<open>2^(emin + prec + 1)\<close> (the value 1 of \<open>main\<close> is one), every
  finite initial guess and every divisor greater than one, the loop of \<open>accuracy_bound\<close>
  terminates and \<open>accuracy_bound\<close> returns.
\<close>

theorem accuracy_bound_terminates:
  assumes "valid_format f"
    and "is_float f (Finite t w)" and "pow2 (emin f + int (prec f) + 1) \<le> w"
    and "is_float f divisor" and "fless (Finite False 1) divisor"
    and "is_float f initial_guess" and "is_finite initial_guess"
  shows "\<exists>g. accuracy_bound f (Finite t w) divisor initial_guess = Some g"
proof -
  from assms(7) obtain s m where g: "initial_guess = Finite s m"
    by (cases initial_guess) simp_all
  have "accuracy_loop f (Finite t w) divisor (Finite s m) \<noteq> None"
    using assms(1-6) unfolding g by (rule accuracy_loop_terminates)
  then show ?thesis
    by (auto simp: accuracy_bound_def g)
qed

theorem accuracy_bound_terminates_witness:
  "valid_format binary32 \<and> is_float binary32 (Finite False 1) \<and>
   pow2 (emin binary32 + int (prec binary32) + 1) \<le> 1 \<and>
   is_float binary32 (Finite False (9227469 / 8388608)) \<and>
   fless (Finite False 1) (Finite False (9227469 / 8388608)) \<and>
   is_finite (Finite False 1) \<and>
   (\<exists>g. accuracy_bound binary32 (Finite False 1) (Finite False (9227469 / 8388608))
      (Finite False 1) = Some g)"
  using accuracy_bound_terminates
    [of binary32 False 1 "Finite False (9227469 / 8388608)" "Finite False 1"]
  by (simp add: fp_eval valid_format_def is_float.simps)

subsection \<open>The returned bound\<close>

text \<open>
  When the initial guess is significant and the loop exits, it exits one division after a
  guess \<open>p\<close> that is significant and whose quotient \<open>p / divisor\<close> is not: the second last
  value of \<open>epsilon\<close> has the two properties of a bound. What is returned is the product
  \<open>(p / divisor) * divisor\<close>.
\<close>

lemma second_last_guess:
  assumes "fneq (fadd f value initial_guess) value"
    and "accuracy_bound f value divisor initial_guess = Some g"
  shows "\<exists>k. g = fmul f (fdiv f (guess_after f divisor initial_guess k) divisor) divisor \<and>
    fneq (fadd f value (guess_after f divisor initial_guess k)) value \<and>
    \<not> fneq (fadd f value (fdiv f (guess_after f divisor initial_guess k) divisor)) value"
proof -
  from assms(2) obtain e where e: "accuracy_loop f value divisor initial_guess = Some e"
    and g: "g = fmul f e divisor"
    by (auto simp: accuracy_bound_def split: option.splits)
  from accuracy_loop_trace [OF e] obtain k where k: "e = guess_after f divisor initial_guess k"
    "\<not> fneq (fadd f value e) value"
    "\<forall>j<k. fneq (fadd f value (guess_after f divisor initial_guess j)) value"
    by blast
  from assms(1) k(1,2) have "k \<noteq> 0"
    by (cases k) auto
  then obtain j where j: "k = Suc j"
    by (cases k) simp_all
  with k g show ?thesis
    by (intro exI [of _ j]) simp
qed

text \<open>
  Claim C1 says that the returned bound \<open>g\<close> is significant (\<open>value + g != value\<close>) for
  a divisor greater than one and an initial guess that is significant. For the \<open>float\<close>
  call with value 0, divisor 2 and initial guess 1 the guess is halved down to the smallest
  subnormal number and then to zero, and the returned product is zero: \<open>0 + 0 == 0\<close>.
\<close>

theorem bound_of_zero_is_absorbed:
  "fneq (fadd binary32 (Finite False 0) (Finite False 1)) (Finite False 0) \<and>
   fless (Finite False 1) (Finite False 2) \<and>
   accuracy_bound binary32 (Finite False 0) (Finite False 2) (Finite False 1) =
     Some (Finite False 0) \<and>
   \<not> fneq (fadd binary32 (Finite False 0) (Finite False 0)) (Finite False 0)"
  by (simp add: accuracy_bound_def accuracy_loop.simps fp_eval)

text \<open>
  Claim C3 says that \<open>epsilon * divisor\<close> is the guess held one iteration before the loop
  exited. For the \<open>double\<close> call with value 1, divisor \<open>10^7\<close> and initial guess 1 the
  guesses after 0, 1 and 2 divisions are significant and the guess after 3 divisions is not;
  the returned product is one unit in the last place below the guess after 2 divisions.
\<close>

theorem product_misses_previous_guess:
  "fneq (fadd binary64 (Finite False 1)
      (guess_after binary64 (Finite False 10000000) (Finite False 1) 0)) (Finite False 1) \<and>
   fneq (fadd binary64 (Finite False 1)
      (guess_after binary64 (Finite False 10000000) (Finite False 1) 1)) (Finite False 1) \<and>
   fneq (fadd binary64 (Finite False 1)
      (guess_after binary64 (Finite False 10000000) (Finite False 1) 2)) (Finite False 1) \<and>
   \<not> fneq (fadd binary64 (Finite False 1)
      (guess_after binary64 (Finite False 10000000) (Finite False 1) 3)) (Finite False 1) \<and>
   accuracy_loop binary64 (Finite False 1) (Finite False 10000000) (Finite False 1) =
     Some (guess_after binary64 (Finite False 10000000) (Finite False 1) 3) \<and>
   guess_after binary64 (Finite False 10000000) (Finite False 1) 2 =
     Finite False (6338253001141147 / 633825300114114700748351602688) \<and>
   accuracy_bound binary64 (Finite False 1) (Finite False 10000000) (Finite False 1) =
     Some (Finite False (3169126500570573 / 316912650057057350374175801344)) \<and>
   fneq (Finite False (3169126500570573 / 316912650057057350374175801344))
     (Finite False (6338253001141147 / 633825300114114700748351602688))"
  by (simp add: accuracy_bound_def accuracy_loop.simps guess_after_numeral fp_eval)

subsection \<open>Bounds of the three formats\<close>

text \<open>
  Claim C6 as stated: for the same divisors, reference value and initial guess the final
  bound of a narrower type is larger than that of a wider type. With the reference value 1,
  the initial guess 1 and the single divisor \<open>2^60\<close> the loop runs its body once in
  \<open>float\<close> and in \<open>double\<close>: the initial guess is significant, its quotient \<open>2^-60\<close>
  is not. Both calls return the second last guess, 1, and the two bounds are equal.
\<close>

theorem large_divisor_equal_bounds:
  "is_float binary32 (Finite False (2 ^ 60)) \<and>
   fneq (fadd binary32 (Finite False 1) (Finite False 1)) (Finite False 1) \<and>
   fneq (fadd binary64 (Finite False 1) (Finite False 1)) (Finite False 1) \<and>
   accuracy_loop binary32 (Finite False 1) (Finite False (2 ^ 60)) (Finite False 1) =
     Some (fdiv binary32 (Finite False 1) (Finite False (2 ^ 60))) \<and>
   accuracy_loop binary64 (Finite False 1) (Finite False (2 ^ 60)) (Finite False 1) =
     Some (fdiv binary64 (Finite False 1) (Finite False (2 ^ 60))) \<and>
   accuracy_vector binary32 (Finite False 1) [Finite False (2 ^ 60)] (Finite False 1) =
     Some [Finite False 1] \<and>
   accuracy_vector binary64 (Finite False 1) [Finite False (2 ^ 60)] (Finite False 1) =
     Some [Finite False 1] \<and>
   last_element [Finite False 1] = Some (Finite False 1) \<and>
   \<not> fless (Finite False 1) (Finite False 1)"
  by (simp add: accuracy_vector_short accuracy_bound_def accuracy_loop.simps fp_eval
      is_float.simps last_element_def)

text \<open>
  Claim C6, amended. Let \<open>f\<close> be the narrower and \<open>g\<close> the wider of two formats:
  \<open>g\<close> has at least the exponent range of \<open>f\<close> and at least \<open>k + 1\<close> more significand
  bits. Let every divisor be a number of \<open>f\<close>, greater than one and at most \<open>2^k\<close>
  (\<open>k\<close> can be up to 28 for \<open>float\<close> and \<open>double\<close>, up to 10 for \<open>double\<close> and
  \<open>long double\<close>). Let the reference value be a number of \<open>f\<close>, of either sign, whose
  magnitude \<open>w\<close> has \<open>2^(emin f + prec f + 1) * 2^k \<le> w\<close> and \<open>w * 2^k \<le> 2^(emax f)\<close>,
  so that in \<open>f\<close> no quotient of a significant guess underflows and no product overflows,
  and \<open>2^(emin g + prec g + 1) \<le> w\<close>, so that the loop terminates in \<open>g\<close>. Let the initial
  guess be a positive number of \<open>f\<close> with \<open>value + initial_guess != value\<close> in \<open>f\<close>, and
  let there be at least one and fewer than \<open>2^32\<close> divisors. Then \<open>accuracy_vector\<close>
  returns in both formats, and the last bound in \<open>f\<close> is larger than the last bound in
  \<open>g\<close>.
\<close>

theorem narrower_bound_larger:
  assumes f: "valid_format f" and g: "valid_format g"
    and fg: "prec f + k + 1 \<le> prec g" "emax f \<le> emax g"
    and w: "is_float f (Finite t w)"
      "pow2 (emin f + int (prec f) + 1) * 2 ^ k \<le> w" "w * 2 ^ k \<le> pow2 (emax f)"
      "pow2 (emin g + int (prec g) + 1) \<le> w"
    and m: "is_float f (Finite False m)"
      "fneq (fadd f (Finite t w) (Finite False m)) (Finite t w)"
    and ds: "divisors \<noteq> []" "length divisors < 2 ^ 32"
      "\<forall>d\<in>set divisors. is_float f d \<and> fless (Finite False 1) d \<and>
         \<not> fless (Finite False (2 ^ k)) d"
  shows "\<exists>out_f out_g x y.
      accuracy_vector f (Finite t w) divisors (Finite False m) = Some out_f \<and>
      accuracy_vector g (Finite t w) divisors (Finite False m) = Some out_g \<and>
      last_element out_f = Some x \<and> last_element out_g = Some y \<and> fless y x"
proof -
  note e = valid_format_exponents [OF f]
  have p: "1 \<le> prec f"
    using e(3) by simp
  have pq: "prec f \<le> prec g"
    using fg(1) by simp
  define c :: int where "c = (if t \<and> w = pow2 (ilog2 w) then 1 else 0)"
  define jf where "jf = ilog2 w - int (prec f) - c"
  define jg where "jg = ilog2 w - int (prec g) - c"
  have jf: "jf = ilog2 w - int (prec f) - (if t \<and> w = pow2 (ilog2 w) then 1 else 0)"
    by (simp add: jf_def c_def)
  have jg: "jg = ilog2 w - int (prec g) - (if t \<and> w = pow2 (ilog2 w) then 1 else 0)"
    by (simp add: jg_def c_def)
  have "pow2 (emin f + int (prec f) + 1) * 1 \<le> pow2 (emin f + int (prec f) + 1) * 2 ^ k"
    by (intro mult_left_mono) simp_all
  also note w(2)
  finally have large: "pow2 (emin f + int (prec f) + 1) \<le> w"
    by simp
  have m0: "0 \<le> m"
    using m(1) by (rule float_position)
  have "pow2 jf \<le> m"
    using m(2) by (rule significance_threshold(1) [OF large w(1) p m0 jf])
  moreover have "pow2 (jf - 1) < pow2 jf"
    by (intro pow2_less) simp
  ultimately have Hm: "pow2 (jf - 1) < m"
    by (rule less_le_trans [rotated])
  from refine_spec_gt [OF f w(1-3) jf ds(3) m(1) Hm] obtain out_f
    where out_f: "refine_spec f (Finite t w) divisors (Finite False m) = Some out_f"
      "\<forall>x\<in>set out_f. \<exists>r. x = Finite False r \<and> pow2 (jf - 1) < r"
    by blast
  have wg: "is_float g (Finite t w)"
    using pq fg(2) p w(1) by (rule is_float_wider)
  have mg: "is_float g (Finite False m)"
    using pq fg(2) p m(1) by (rule is_float_wider)
  have dg: "\<forall>d\<in>set divisors. is_float g d \<and> fless (Finite False 1) d \<and>
      \<not> fless (Finite False (2 ^ k)) d"
    using ds(3) is_float_wider [OF pq fg(2) p] by blast
  have kg: "k \<le> prec g"
    using fg(1) by simp
  from refine_spec_le [OF g wg w(4) jg kg dg mg] obtain out_g
    where out_g: "refine_spec g (Finite t w) divisors (Finite False m) = Some out_g"
      "\<forall>x\<in>set out_g. \<exists>r. x = Finite False r \<and> r \<le> pow2 (jg + int k)"
    by blast
  have "pow2 (jg + int k) \<le> pow2 (jf - 1)"
    using fg(1) by (intro pow2_le) (simp add: jf_def jg_def)
  with out_g(2) have le: "\<forall>x\<in>set out_g. \<exists>r. x = Finite False r \<and> r \<le> pow2 (jf - 1)"
    by (meson order_trans)
  have "length out_f = length divisors" "length out_g = length divisors"
    using out_f(1) out_g(1) by (simp_all add: refine_spec_length)
  with ds(1) have ne: "out_f \<noteq> []" "out_g \<noteq> []"
    by auto
  from last_element_mem [OF ne(1)] out_f(2) obtain x a
    where x: "last_element out_f = Some x" "x = Finite False a" "pow2 (jf - 1) < a"
    by blast
  from last_element_mem [OF ne(2)] le obtain y b
    where y: "last_element out_g = Some y" "y = Finite False b" "b \<le> pow2 (jf - 1)"
    by blast
  have "fless y x"
    using x(3) y(3) by (simp add: x(2) y(2) signed_def)
  moreover have "accuracy_vector f (Finite t w) divisors (Finite False m) = Some out_f"
      "accuracy_vector g (Finite t w) divisors (Finite False m) = Some out_g"
    using ds(2) out_f(1) out_g(1) by (simp_all add: accuracy_vector_short)
  ultimately show ?thesis
    using x(1) y(1) by blast
qed

theorem narrower_bound_larger_witness:
  "valid_format binary32 \<and> valid_format binary64 \<and> valid_format x87_extended \<and>
   prec binary32 + 28 + 1 \<le> prec binary64 \<and> emax binary32 \<le> emax binary64 \<and>
   prec binary64 + 10 + 1 \<le> prec x87_extended \<and> emax binary64 \<le> emax x87_extended \<and>
   is_float binary32 (Finite False 1) \<and> is_float binary64 (Finite False 1) \<and>
   is_float binary32 (Finite True 1) \<and>
   pow2 (emin binary32 + int (prec binary32) + 1) * 2 ^ 28 \<le> 1 \<and>
   1 * 2 ^ 28 \<le> pow2 (emax binary32) \<and>
   pow2 (emin binary64 + int (prec binary64) + 1) * 2 ^ 10 \<le> 1 \<and>
   1 * 2 ^ 10 \<le> pow2 (emax binary64) \<and>
   pow2 (emin binary64 + int (prec binary64) + 1) \<le> 1 \<and>
   pow2 (emin x87_extended + int (prec x87_extended) + 1) \<le> 1 \<and>
   fneq (fadd binary32 (Finite False 1) (Finite False 1)) (Finite False 1) \<and>
   fneq (fadd binary64 (Finite False 1) (Finite False 1)) (Finite False 1) \<and>
   fneq (fadd binary32 (Finite True 1) (Finite False 1)) (Finite True 1) \<and>
   single_divisors \<noteq> [] \<and> length single_divisors < 2 ^ 32 \<and>
   list_all (\<lambda>d. is_float binary32 d \<and> fless (Finite False 1) d \<and>
      \<not> fless (Finite False (2 ^ 28)) d) single_divisors \<and>
   list_all (\<lambda>d. is_float binary64 d \<and> fless (Finite False 1) d \<and>
      \<not> fless (Finite False (2 ^ 10)) d) single_divisors \<and>
   (\<exists>s d x y.
      accuracy_vector binary32 (Finite False 1) single_divisors (Finite False 1) = Some s \<and>
      accuracy_vector binary64 (Finite False 1) single_divisors (Finite False 1) = Some d \<and>
      last_element s = Some x \<and> last_element d = Some y \<and> fless y x) \<and>
   (\<exists>d e x y.
      accuracy_vector binary64 (Finite False 1) single_divisors (Finite False 1) = Some d \<and>
      accuracy_vector x87_extended (Finite False 1) single_divisors (Finite False 1) = Some e \<and>
      last_element d = Some x \<and> last_element e = Some y \<and> fless y x) \<and>
   (\<exists>s d x y.
      accuracy_vector binary32 (Finite True 1) single_divisors (Finite False 1) = Some s \<and>
      accuracy_vector binary64 (Finite True 1) single_divisors (Finite False 1) = Some d \<and>
      last_element s = Some x \<and> last_element d = Some y \<and> fless y x)"
proof -
  have v: "valid_format binary32" "valid_format binary64" "valid_format x87_extended"
    by (simp_all add: valid_format_def binary32_def binary64_def x87_extended_def)
  have fg: "prec binary32 + 28 + 1 \<le> prec binary64" "emax binary32 \<le> emax binary64"
      "prec binary64 + 10 + 1 \<le> prec x87_extended" "emax binary64 \<le> emax x87_extended"
    by (simp_all add: binary32_def binary64_def x87_extended_def)
  have one: "is_float binary32 (Finite False 1)" "is_float binary64 (Finite False 1)"
      "is_float binary32 (Finite True 1)"
    by (simp_all add: is_float.simps fp_eval)
  have lo: "pow2 (emin binary32 + int (prec binary32) + 1) * 2 ^ 28 \<le> 1"
      "pow2 (emin binary64 + int (prec binary64) + 1) * 2 ^ 10 \<le> 1"
    by (simp_all add: fp_eval)
  have hi: "1 * 2 ^ 28 \<le> pow2 (emax binary32)" "1 * 2 ^ 10 \<le> pow2 (emax binary64)"
    by (simp_all add: fp_eval)
  have la: "pow2 (emin binary64 + int (prec binary64) + 1) \<le> 1"
      "pow2 (emin x87_extended + int (prec x87_extended) + 1) \<le> 1"
    using v(2,3) by (simp_all only: one_is_large)
  have sg: "fneq (fadd binary32 (Finite False 1) (Finite False 1)) (Finite False 1)"
      "fneq (fadd binary64 (Finite False 1) (Finite False 1)) (Finite False 1)"
      "fneq (fadd binary32 (Finite True 1) (Finite False 1)) (Finite True 1)"
    by (simp_all add: fp_eval)
  have ne: "single_divisors \<noteq> []" "length single_divisors < 2 ^ 32"
    by (simp_all add: single_divisors_eval)
  have d1: "list_all (\<lambda>d. is_float binary32 d \<and> fless (Finite False 1) d \<and>
      \<not> fless (Finite False (2 ^ 28)) d) single_divisors"
    by (simp add: single_divisors_eval is_float.simps fp_eval)
  have d2: "list_all (\<lambda>d. is_float binary64 d \<and> fless (Finite False 1) d \<and>
      \<not> fless (Finite False (2 ^ 10)) d) single_divisors"
    by (simp add: single_divisors_eval is_float.simps fp_eval)
  have b1: "\<forall>d\<in>set single_divisors. is_float binary32 d \<and> fless (Finite False 1) d \<and>
      \<not> fless (Finite False (2 ^ 28)) d"
    using d1 by (simp only: list_all_iff)
  have b2: "\<forall>d\<in>set single_divisors. is_float binary64 d \<and> fless (Finite False 1) d \<and>
      \<not> fless (Finite False (2 ^ 10)) d"
    using d2 by (simp only: list_all_iff)
  note c1 = narrower_bound_larger [OF v(1,2) fg(1,2) one(1) lo(1) hi(1) la(1) one(1) sg(1) ne b1]
  note c2 = narrower_bound_larger [OF v(2,3) fg(3,4) one(2) lo(2) hi(2) la(2) one(2) sg(2) ne b2]
  note c3 = narrower_bound_larger [OF v(1,2) fg(1,2) one(3) lo(1) hi(1) la(1) one(1) sg(3) ne b1]
  show ?thesis
    by (intro conjI v fg one lo hi la sg ne d1 d2 c1 c2 c3)
qed

text \<open>The three final bounds of \<open>main\<close>, by evaluation.\<close>

lemma driver_bounds_decrease:
  "\<exists>s d e.
     accuracy_vector binary32 (Finite False 1) single_divisors (Finite False 1) = Some s \<and>
     accuracy_vector binary64 (Finite False 1) double_divisors (Finite False 1) = Some d \<and>
     accuracy_vector x87_extended (Finite False 1) extended_divisors (Finite False 1) = Some e \<and>
     fless (last d) (last s) \<and> fless (last e) (last d)"
  by (simp add: single_vector double_vector extended_vector signed_def)

subsection \<open>What \<open>main\<close> prints\<close>

lemma one_double: "literal binary64 1 = Finite False 1"
  by (simp add: fp_eval)

lemma one_single: "round_fp binary32 False 1 = Finite False 1"
  by (simp add: fp_eval)

lemma one_extended: "round_fp x87_extended False 1 = Finite False 1"
  by (simp add: fp_eval)

lemma pow_2_eval:
  "pow_2 (- 24) = Finite False (pow2 (- 24))"
  "pow_2 (- 53) = Finite False (pow2 (- 53))"
  "pow_2 (- 64) = Finite False (pow2 (- 64))"
  by (simp_all add: pow_2_def fp_eval)

text \<open>
  Claim C7. \<open>main\<close> calls \<open>accuracy_vector\<close> once for each of the three formats, with
  reference value 1 and initial guess 1, and prints the last element of each result next to
  \<open>2^-24\<close>, \<open>2^-53\<close> and \<open>2^-64\<close>. It prints them although each printed bound differs
  from the theoretical value beside it: nothing compares the two.
\<close>

theorem main_reports:
  "\<exists>s d e.
     accuracy_vector binary32 (Finite False 1) single_divisors (Finite False 1) = Some s \<and>
     accuracy_vector binary64 (Finite False 1) double_divisors (Finite False 1) = Some d \<and>
     accuracy_vector x87_extended (Finite False 1) extended_divisors (Finite False 1) = Some e \<and>
     map_option console main =
       Some [Str ''Single precision accuracy upper bound: '', Num (last s),
             Str '', compared with a theoretical value of '', Num (Finite False (pow2 (- 24))),
             Str ''.'', Endl,
             Str ''Double precision accuracy upper bound: '', Num (last d),
             Str '', compared with a theoretical value of '', Num (Finite False (pow2 (- 53))),
             Str ''.'', Endl,
             Str ''Extended precision accuracy upper bound: '', Num (last e),
             Str '', compared with a theoretical value of '', Num (Finite False (pow2 (- 64))),
             Str ''.'', Endl] \<and>
     fneq (last s) (Finite False (pow2 (- 24))) \<and>
     fneq (last d) (Finite False (pow2 (- 53))) \<and>
     fneq (last e) (Finite False (pow2 (- 64)))"
  by (simp add: main_def one_single one_double one_extended pow_2_eval single_vector
      double_vector extended_vector last_element_def signed_def pow2_neg_numeral)

subsection \<open>Side effects\<close>



end
